theory Spec2Isabelle
  imports Complex_Main "HOL-Library.AList" "HOL-Library.Char_ord" "HOL-Library.List_Lexorder"
begin

section \<open>Python values used by the scheduler and the collector\<close>

text \<open>
  The two modules under verification are \<^verbatim>\<open>src/automations/scheduler.py\<close> and
  \<^verbatim>\<open>src/automations/auto_collector.py\<close>. Both read the wall clock with
  \<^verbatim>\<open>datetime.now()\<close>; every operation of the model receives that reading as an
  argument \<open>now\<close>. Where one operation reads the clock several times, the readings are
  taken to be the same instant. Each operation is modelled as running alone: what other
  coroutines do while it awaits a collaborator is not part of the model.
\<close>

datatype py_error = ValueError | OverflowError | ZeroDivisionError

subsection \<open>Naive datetimes\<close>

text \<open>
  A \<^verbatim>\<open>datetime\<close> holds the seven fields below and compares field by field.
  The calendar functions follow CPython's \<^verbatim>\<open>datetime.py\<close>:
  \<^verbatim>\<open>_is_leap\<close>, \<^verbatim>\<open>_days_before_year\<close>, \<^verbatim>\<open>_days_in_month\<close>,
  \<^verbatim>\<open>_days_before_month\<close>, \<^verbatim>\<open>_ymd2ord\<close>, \<^verbatim>\<open>weekday\<close>.
\<close>

record datetime =
  year :: int
  month :: int
  day :: int
  hour :: int
  minute :: int
  second :: int
  microsecond :: int

definition MAXYEAR :: int where
  "MAXYEAR = 9999"

definition MAXORDINAL :: int where
  "MAXORDINAL = 3652059"

definition is_leap :: "int \<Rightarrow> bool" where
  "is_leap y = (y mod 4 = 0 \<and> (y mod 100 \<noteq> 0 \<or> y mod 400 = 0))"

definition days_before_year :: "int \<Rightarrow> int" where
  "days_before_year y = (let y' = y - 1 in y' * 365 + y' div 4 - y' div 100 + y' div 400)"

definition DAYS_IN_MONTH :: "int list" where
  "DAYS_IN_MONTH = [-1, 31, 28, 31, 30, 31, 30, 31, 31, 30, 31, 30, 31]"

definition DAYS_BEFORE_MONTH :: "int list" where
  "DAYS_BEFORE_MONTH = [-1, 0, 31, 59, 90, 120, 151, 181, 212, 243, 273, 304, 334]"

definition days_in_month :: "int \<Rightarrow> int \<Rightarrow> int" where
  "days_in_month y m = (if m = 2 \<and> is_leap y then 29 else DAYS_IN_MONTH ! nat m)"

definition days_before_month :: "int \<Rightarrow> int \<Rightarrow> int" where
  "days_before_month y m = DAYS_BEFORE_MONTH ! nat m + (if 2 < m \<and> is_leap y then 1 else 0)"

definition ymd2ord :: "int \<Rightarrow> int \<Rightarrow> int \<Rightarrow> int" where
  "ymd2ord y m d = days_before_year y + days_before_month y m + d"

definition toordinal :: "datetime \<Rightarrow> int" where
  "toordinal dt = ymd2ord (year dt) (month dt) (day dt)"

definition weekday :: "datetime \<Rightarrow> int" where
  "weekday dt = (toordinal dt + 6) mod 7"

text \<open>The invariant of the type: what the constructor of \<^verbatim>\<open>datetime\<close> checks.\<close>

definition valid_date :: "int \<Rightarrow> int \<Rightarrow> int \<Rightarrow> bool" where
  "valid_date y m d = (1 \<le> y \<and> y \<le> MAXYEAR \<and> 1 \<le> m \<and> m \<le> 12 \<and> 1 \<le> d \<and> d \<le> days_in_month y m)"

definition valid_datetime :: "datetime \<Rightarrow> bool" where
  "valid_datetime dt =
     (valid_date (year dt) (month dt) (day dt) \<and>
      0 \<le> hour dt \<and> hour dt < 24 \<and> 0 \<le> minute dt \<and> minute dt < 60 \<and>
      0 \<le> second dt \<and> second dt < 60 \<and> 0 \<le> microsecond dt \<and> microsecond dt < 1000000)"

text \<open>
  \<^verbatim>\<open>datetime(y, m, d, hh, mm)\<close>: the constructor raises \<^verbatim>\<open>ValueError\<close> on a field
  out of range; seconds and microseconds default to zero.
\<close>

definition mk_datetime :: "int \<Rightarrow> int \<Rightarrow> int \<Rightarrow> int \<Rightarrow> int \<Rightarrow> py_error + datetime" where
  "mk_datetime y m d hh mm =
     (let dt = \<lparr>year = y, month = m, day = d, hour = hh, minute = mm, second = 0, microsecond = 0\<rparr>
      in if valid_datetime dt then Inr dt else Inl ValueError)"

text \<open>
  \<^verbatim>\<open>datetime.combine(now.date(), t)\<close> for a time of day \<open>t\<close> that
  \<^verbatim>\<open>strptime(..., "%H:%M").time()\<close> produced: the date of \<open>now\<close>, hour and minute of
  \<open>t\<close>, zero seconds and microseconds.
\<close>

definition combine :: "datetime \<Rightarrow> int \<times> int \<Rightarrow> datetime" where
  "combine d t = \<lparr>year = year d, month = month d, day = day d,
                  hour = fst t, minute = snd t, second = 0, microsecond = 0\<rparr>"

text \<open>Comparison of two naive datetimes: lexicographic on the seven fields.\<close>

definition dt_key :: "datetime \<Rightarrow> int list" where
  "dt_key dt = [year dt, month dt, day dt, hour dt, minute dt, second dt, microsecond dt]"

fun lex_lt :: "int list \<Rightarrow> int list \<Rightarrow> bool" where
  "lex_lt (x # xs) (y # ys) = (x < y \<or> (x = y \<and> lex_lt xs ys))"
| "lex_lt [] (y # ys) = True"
| "lex_lt xs [] = False"

definition dt_lt :: "datetime \<Rightarrow> datetime \<Rightarrow> bool" where
  "dt_lt a b = lex_lt (dt_key a) (dt_key b)"

definition dt_le :: "datetime \<Rightarrow> datetime \<Rightarrow> bool" where
  "dt_le a b = (dt_lt a b \<or> dt_key a = dt_key b)"

text \<open>
  Adding a \<^verbatim>\<open>timedelta\<close>. CPython computes the ordinal of the date plus the day
  carry and calls \<^verbatim>\<open>date.fromordinal\<close>; it raises \<^verbatim>\<open>OverflowError\<close> when
  that ordinal leaves \<open>1..MAXORDINAL\<close>. \<^verbatim>\<open>fromordinal(toordinal + k)\<close> is the
  \<open>k\<close>-th following calendar day, which the model reaches by stepping \<open>next_day\<close>;
  lemma \<open>ymd_ord_add_days\<close> below shows that the ordinal of the date so reached
  is \<open>toordinal + k\<close>. Every \<^verbatim>\<open>timedelta\<close> the two modules add is a
  non-negative number of days and whole seconds.
\<close>

definition next_day :: "int \<times> int \<times> int \<Rightarrow> int \<times> int \<times> int" where
  "next_day = (\<lambda>(y, m, d).
     if d < days_in_month y m then (y, m, d + 1)
     else if m < 12 then (y, m + 1, 1)
     else (y + 1, 1, 1))"

definition add_days :: "int \<times> int \<times> int \<Rightarrow> int \<Rightarrow> int \<times> int \<times> int" where
  "add_days ymd k = (next_day ^^ nat k) ymd"

definition dt_add :: "datetime \<Rightarrow> int \<Rightarrow> int \<Rightarrow> py_error + datetime" where
  "dt_add dt td_days td_seconds =
     (let secs = hour dt * 3600 + minute dt * 60 + second dt + td_seconds;
          days = td_days + secs div 86400;
          rem = secs mod 86400;
          ordinal = toordinal dt + days
      in if 0 < ordinal \<and> ordinal \<le> MAXORDINAL then
           (case add_days (year dt, month dt, day dt) days of
              (y, m, d) \<Rightarrow>
                Inr \<lparr>year = y, month = m, day = d,
                     hour = rem div 3600, minute = rem mod 3600 div 60, second = rem mod 60,
                     microsecond = microsecond dt\<rparr>)
         else Inl OverflowError)"

text \<open>
  \<^verbatim>\<open>(a - b).total_seconds()\<close> as an exact number of microseconds; the collector
  compares it with 3600 seconds.
\<close>

definition total_microseconds :: "datetime \<Rightarrow> datetime \<Rightarrow> int" where
  "total_microseconds a b =
     ((toordinal a - toordinal b) * 86400
        + ((hour a * 3600 + minute a * 60 + second a) - (hour b * 3600 + minute b * 60 + second b)))
       * 1000000
     + (microsecond a - microsecond b)"

subsection \<open>Strings: digits, \<^verbatim>\<open>int()\<close>, \<^verbatim>\<open>split\<close>, \<^verbatim>\<open>strptime\<close>, \<^verbatim>\<open>isoformat\<close>\<close>

text \<open>
  Strings are ASCII; the Unicode digits and spaces that Python's \<^verbatim>\<open>int()\<close> and
  \<^verbatim>\<open>\d\<close> also accept are outside the model.
\<close>

definition is_digit :: "char \<Rightarrow> bool" where
  "is_digit c = (c \<in> set ''0123456789'')"

definition digit_val :: "char \<Rightarrow> int" where
  "digit_val c =
     (case map_of (zip ''0123456789'' [0, 1, 2, 3, 4, 5, 6, 7, 8, 9]) c of
        Some v \<Rightarrow> v
      | None \<Rightarrow> 0)"

text \<open>
  The blanks that \<^verbatim>\<open>int()\<close> skips around the number in an ASCII string: the
  space and the characters 0x09 to 0x0D.
\<close>

definition py_isspace :: "char \<Rightarrow> bool" where
  "py_isspace c = (c \<in> set [CHR '' '', CHR 0x09, CHR 0x0A, CHR 0x0B, CHR 0x0C, CHR 0x0D])"

definition py_strip :: "string \<Rightarrow> string" where
  "py_strip s = rev (dropWhile py_isspace (rev (dropWhile py_isspace s)))"

text \<open>Decimal digits of \<^verbatim>\<open>int()\<close>: single underscores are allowed between digits.\<close>

fun py_digits :: "string \<Rightarrow> int \<Rightarrow> int option" where
  "py_digits [] acc = Some acc"
| "py_digits (c # cs) acc =
     (if is_digit c then py_digits cs (acc * 10 + digit_val c)
      else if c = CHR ''_'' then
        (case cs of
           [] \<Rightarrow> None
         | d # ds \<Rightarrow> if is_digit d then py_digits cs acc else None)
      else None)"

text \<open>
  The number after the sign: it starts with a digit, and \<^verbatim>\<open>int()\<close> refuses more
  than 4300 digits (the default of \<^verbatim>\<open>sys.get_int_max_str_digits()\<close>; underscores
  are not counted, leading zeros are).
\<close>

definition MAX_STR_DIGITS :: int where
  "MAX_STR_DIGITS = 4300"

definition py_unsigned :: "string \<Rightarrow> int option" where
  "py_unsigned s =
     (case s of
        [] \<Rightarrow> None
      | c # cs \<Rightarrow>
          if \<not> is_digit c then None
          else if int (length (filter is_digit s)) > MAX_STR_DIGITS then None
          else py_digits s 0)"

text \<open>\<^verbatim>\<open>int(s)\<close> on a string; \<open>None\<close> stands for \<^verbatim>\<open>ValueError\<close>.\<close>

definition py_int :: "string \<Rightarrow> int option" where
  "py_int s =
     (case py_strip s of
        [] \<Rightarrow> None
      | c # cs \<Rightarrow>
          if c = CHR ''+'' then py_unsigned cs
          else if c = CHR ''-'' then map_option uminus (py_unsigned cs)
          else py_unsigned (c # cs))"

text \<open>\<^verbatim>\<open>s.split(':')\<close>.\<close>

fun split_on :: "char \<Rightarrow> string \<Rightarrow> string list" where
  "split_on sep [] = [[]]"
| "split_on sep (x # xs) =
     (if x = sep then [] # split_on sep xs
      else (case split_on sep xs of
              [] \<Rightarrow> [[x]]
            | p # ps \<Rightarrow> (x # p) # ps))"

text \<open>
  \<^verbatim>\<open>datetime.strptime(s, "%H:%M")\<close>. CPython compiles the format into the regular
  expression \<^verbatim>\<open>(?P<H>2[0-3]|[0-1]\d|\d):(?P<M>[0-5]\d|\d)\<close>, matches it at the
  start of the string with backtracking, and raises \<^verbatim>\<open>ValueError\<close> when there is
  no match or when the first match leaves unconverted data. \<open>H_alts\<close> and \<open>M_alts\<close>
  list the ways each group can match, in the order of the alternatives, with the rest
  of the string.
\<close>

definition H_alts :: "string \<Rightarrow> (int \<times> string) list" where
  "H_alts s =
     (case s of
        a # b # r \<Rightarrow>
          (if a = CHR ''2'' \<and> b \<in> set ''0123'' then [(20 + digit_val b, r)] else [])
          @ (if a \<in> set ''01'' \<and> is_digit b then [(10 * digit_val a + digit_val b, r)] else [])
          @ (if is_digit a then [(digit_val a, b # r)] else [])
      | [a] \<Rightarrow> (if is_digit a then [(digit_val a, [])] else [])
      | [] \<Rightarrow> [])"

definition M_alts :: "string \<Rightarrow> (int \<times> string) list" where
  "M_alts s =
     (case s of
        a # b # r \<Rightarrow>
          (if a \<in> set ''012345'' \<and> is_digit b then [(10 * digit_val a + digit_val b, r)] else [])
          @ (if is_digit a then [(digit_val a, b # r)] else [])
      | [a] \<Rightarrow> (if is_digit a then [(digit_val a, [])] else [])
      | [] \<Rightarrow> [])"

definition HM_matches :: "string \<Rightarrow> ((int \<times> int) \<times> string) list" where
  "HM_matches s =
     concat (map (\<lambda>(h, r).
               (case r of
                  c # r' \<Rightarrow> if c = CHR '':'' then map (\<lambda>(m, rest). ((h, m), rest)) (M_alts r') else []
                | [] \<Rightarrow> []))
             (H_alts s))"

definition strptime_HM :: "string \<Rightarrow> py_error + (int \<times> int)" where
  "strptime_HM s =
     (case HM_matches s of
        [] \<Rightarrow> Inl ValueError
      | (t, rest) # _ \<Rightarrow> if rest = [] then Inr t else Inl ValueError)"

text \<open>\<^verbatim>\<open>isoformat()\<close>: \<^verbatim>\<open>YYYY-MM-DDTHH:MM:SS\<close>, with \<^verbatim>\<open>.ffffff\<close> when the microsecond is not zero.\<close>

definition digit_char :: "int \<Rightarrow> char" where
  "digit_char n = ''0123456789'' ! nat (n mod 10)"

definition pad2 :: "int \<Rightarrow> string" where
  "pad2 n = [digit_char (n div 10), digit_char n]"

definition pad4 :: "int \<Rightarrow> string" where
  "pad4 n = pad2 (n div 100) @ pad2 n"

definition pad6 :: "int \<Rightarrow> string" where
  "pad6 n = pad2 (n div 10000) @ pad4 n"

definition isoformat :: "datetime \<Rightarrow> string" where
  "isoformat dt =
     pad4 (year dt) @ ''-'' @ pad2 (month dt) @ ''-'' @ pad2 (day dt) @ ''T''
     @ pad2 (hour dt) @ '':'' @ pad2 (minute dt) @ '':'' @ pad2 (second dt)
     @ (if microsecond dt \<noteq> 0 then ''.'' @ pad6 (microsecond dt) else [])"


section \<open>The scheduler (\<^verbatim>\<open>scheduler.py\<close>)\<close>

datatype TaskType = COLLECT_LINKS | AUTO_POST | AUTO_JOIN | BACKUP | CLEANUP | CUSTOM_TASK

datatype ScheduleFrequency = HOURLY | DAILY | WEEKLY | MONTHLY | CUSTOM

definition TaskType_value :: "TaskType \<Rightarrow> string" where
  "TaskType_value t =
     (case t of COLLECT_LINKS \<Rightarrow> ''collect_links'' | AUTO_POST \<Rightarrow> ''auto_post''
      | AUTO_JOIN \<Rightarrow> ''auto_join'' | BACKUP \<Rightarrow> ''backup'' | CLEANUP \<Rightarrow> ''cleanup''
      | CUSTOM_TASK \<Rightarrow> ''custom'')"

definition ScheduleFrequency_value :: "ScheduleFrequency \<Rightarrow> string" where
  "ScheduleFrequency_value f =
     (case f of HOURLY \<Rightarrow> ''hourly'' | DAILY \<Rightarrow> ''daily'' | WEEKLY \<Rightarrow> ''weekly''
      | MONTHLY \<Rightarrow> ''monthly'' | CUSTOM \<Rightarrow> ''custom'')"

datatype cfg_value = CfgStr string | CfgInt int

type_synonym config = "(string \<times> cfg_value) list"

text \<open>
  What awaiting a collaborator or a handler does: it returns a value or raises.
  A handler receives the task's configuration map.
\<close>

datatype 'a outcome = Returns 'a | Raises

type_synonym handler = "config \<Rightarrow> bool outcome"

record ScheduledTask =
  task_id :: string
  name :: string
  task_type :: TaskType
  frequency :: ScheduleFrequency
  schedule_time :: string
  is_active :: bool
  last_run :: "datetime option"
  next_run :: "datetime option"
  total_runs :: int
  success_count :: int
  fail_count :: int
  config :: config
  callback :: "handler option"

text \<open>
  The APScheduler side is kept as the table of jobs by id. \<open>from_crontab_ok\<close> stands for
  the library's \<^verbatim>\<open>CronTrigger.from_crontab\<close>: it tells whether the expression is
  accepted (otherwise the library raises \<^verbatim>\<open>ValueError\<close>).
\<close>

datatype trigger = CronTrigger string | IntervalTrigger int

record Scheduler =
  has_db :: bool
  running :: bool
  jobs :: "(string \<times> trigger) list"
  scheduled_tasks :: "(string \<times> ScheduledTask) list"
  task_handlers :: "TaskType \<Rightarrow> handler option"
  from_crontab_ok :: "string \<Rightarrow> bool"

text \<open>\<^verbatim>\<open>_register_default_handlers\<close>: the five built-in handlers log and return \<^verbatim>\<open>True\<close>.\<close>

definition handle_builtin :: handler where
  "handle_builtin cfg = Returns True"

definition register_default_handlers :: "TaskType \<Rightarrow> handler option" where
  "register_default_handlers t = (if t = CUSTOM_TASK then None else Some handle_builtin)"

text \<open>
  \<^verbatim>\<open>__init__\<close>: no task, no job, the default handlers. The arguments are
  whether a database handler was passed and the cron parser of the library.
\<close>

definition init_scheduler :: "bool \<Rightarrow> (string \<Rightarrow> bool) \<Rightarrow> Scheduler" where
  "init_scheduler with_db cron_ok =
     \<lparr>has_db = with_db, running = False, jobs = [], scheduled_tasks = [],
      task_handlers = register_default_handlers, from_crontab_ok = cron_ok\<rparr>"

text \<open>\<^verbatim>\<open>_validate_schedule_time\<close>; any exception inside gives \<^verbatim>\<open>False\<close>.\<close>

definition validate_schedule_time :: "string \<Rightarrow> ScheduleFrequency \<Rightarrow> bool" where
  "validate_schedule_time sched_time freq =
     (if freq = CUSTOM then True
      else if CHR '':'' \<in> set sched_time then
        (case map py_int (split_on CHR '':'' sched_time) of
           [Some hours, Some minutes] \<Rightarrow> 0 \<le> hours \<and> hours < 24 \<and> 0 \<le> minutes \<and> minutes < 60
         | _ \<Rightarrow> False)
      else False)"

text \<open>
  \<^verbatim>\<open>_calculate_next_run\<close>. \<open>calculate_next_run_try\<close> is the body of the
  \<^verbatim>\<open>try\<close>; \<open>Inl\<close> is an exception raised there. The \<^verbatim>\<open>except\<close> clause
  returns \<open>now\<close> plus five minutes, and an \<open>Inl\<close> of \<open>calculate_next_run\<close> is an
  exception raised by that clause itself, which leaves the function.
\<close>

definition calculate_next_run_try :: "ScheduledTask \<Rightarrow> datetime \<Rightarrow> py_error + datetime" where
  "calculate_next_run_try task now =
     (if frequency task = HOURLY then dt_add now 0 3600
      else if frequency task = DAILY then
        (case strptime_HM (schedule_time task) of
           Inl e \<Rightarrow> Inl e
         | Inr t \<Rightarrow>
             let next = combine now t
             in if dt_le next now then dt_add next 1 0 else Inr next)
      else if frequency task = WEEKLY then
        (case strptime_HM (schedule_time task) of
           Inl e \<Rightarrow> Inl e
         | Inr t \<Rightarrow> dt_add (combine now t) (7 - weekday now) 0)
      else if frequency task = MONTHLY then
        (case strptime_HM (schedule_time task) of
           Inl e \<Rightarrow> Inl e
         | Inr t \<Rightarrow>
             let next_month = (if month now < 12 then month now + 1 else 1);
                 next_year = (if month now < 12 then year now else year now + 1)
             in mk_datetime next_year next_month 1 (fst t) (snd t))
      else dt_add now 0 300)"

definition calculate_next_run :: "ScheduledTask \<Rightarrow> datetime \<Rightarrow> py_error + datetime" where
  "calculate_next_run task now =
     (case calculate_next_run_try task now of
        Inr r \<Rightarrow> Inr r
      | Inl e \<Rightarrow> dt_add now 0 300)"

text \<open>
  \<^verbatim>\<open>_add_to_scheduler\<close>: a cron trigger for a custom task, an interval trigger
  otherwise; \<^verbatim>\<open>add_job(..., replace_existing=True)\<close>. An exception (a cron
  expression the library rejects) is logged and swallowed: no job is added then.
\<close>

definition add_to_scheduler :: "Scheduler \<Rightarrow> ScheduledTask \<Rightarrow> Scheduler" where
  "add_to_scheduler s task =
     (if frequency task = CUSTOM then
        (if from_crontab_ok s (schedule_time task)
         then s\<lparr>jobs := AList.update (task_id task) (CronTrigger (schedule_time task)) (jobs s)\<rparr>
         else s)
      else
        (let trigger =
           (if frequency task = HOURLY then IntervalTrigger 3600
            else if frequency task = DAILY then IntervalTrigger 86400
            else if frequency task = WEEKLY then IntervalTrigger 604800
            else if frequency task = MONTHLY then IntervalTrigger 2592000
            else IntervalTrigger 300)
         in s\<lparr>jobs := AList.update (task_id task) trigger (jobs s)\<rparr>))"

text \<open>
  \<^verbatim>\<open>schedule_task\<close>. The registry is a dictionary in insertion order:
  assigning to a present key keeps its place. \<^verbatim>\<open>_save_task_to_db\<close> is a stub
  (\<^verbatim>\<open>pass\<close>) and changes nothing.
\<close>

definition schedule_task :: "Scheduler \<Rightarrow> ScheduledTask \<Rightarrow> datetime \<Rightarrow> bool \<times> Scheduler" where
  "schedule_task s task now =
     (if \<not> validate_schedule_time (schedule_time task) (frequency task) then (False, s)
      else
        (case calculate_next_run task now of
           Inl e \<Rightarrow> (False, s)
         | Inr r \<Rightarrow>
             let task' = task\<lparr>next_run := Some r\<rparr>;
                 s' = add_to_scheduler s task'
             in (True, s'\<lparr>scheduled_tasks := AList.update (task_id task') task' (scheduled_tasks s')\<rparr>)))"

text \<open>
  \<^verbatim>\<open>_add_default_tasks\<close>: the three tasks scheduled at start. Their display names
  are Arabic text in the source and are written in ASCII here.
\<close>

definition new_task ::
  "string \<Rightarrow> string \<Rightarrow> TaskType \<Rightarrow> ScheduleFrequency \<Rightarrow> string \<Rightarrow> config \<Rightarrow> ScheduledTask" where
  "new_task i n ty f spec cfg =
     \<lparr>task_id = i, name = n, task_type = ty, frequency = f, schedule_time = spec,
      is_active = True, last_run = None, next_run = None,
      total_runs = 0, success_count = 0, fail_count = 0, config = cfg, callback = None\<rparr>"

definition daily_backup :: ScheduledTask where
  "daily_backup =
     new_task ''daily_backup'' ''daily backup'' BACKUP DAILY ''02:00'' [(''backup_type'', CfgStr ''full'')]"

definition hourly_collection :: ScheduledTask where
  "hourly_collection =
     new_task ''hourly_collection'' ''hourly collection'' COLLECT_LINKS HOURLY ''*/60''
       [(''interval'', CfgInt 3600)]"

definition weekly_cleanup :: ScheduledTask where
  "weekly_cleanup =
     new_task ''weekly_cleanup'' ''weekly cleanup'' CLEANUP WEEKLY ''04:00'' [(''days_to_keep'', CfgInt 30)]"

definition add_default_tasks :: "Scheduler \<Rightarrow> datetime \<Rightarrow> Scheduler" where
  "add_default_tasks s now =
     fold (\<lambda>task s'. snd (schedule_task s' task now))
          [daily_backup, hourly_collection, weekly_cleanup] s"

text \<open>\<^verbatim>\<open>_run_task_handler\<close>: an exception of the handler is caught and gives \<^verbatim>\<open>False\<close>.\<close>

definition run_task_handler :: "Scheduler \<Rightarrow> ScheduledTask \<Rightarrow> bool" where
  "run_task_handler s task =
     (case task_handlers s (task_type task) of
        Some handler \<Rightarrow> (case handler (config task) of Returns b \<Rightarrow> b | Raises \<Rightarrow> False)
      | None \<Rightarrow>
          (case callback task of
             Some cb \<Rightarrow> (case cb (config task) of Returns b \<Rightarrow> b | Raises \<Rightarrow> False)
           | None \<Rightarrow> False))"

text \<open>
  \<^verbatim>\<open>_execute_task\<close>, the function a timer fires. The task object is mutated in
  place, so every assignment made before an exception stays. The inner
  \<^verbatim>\<open>except\<close> is reached only when \<^verbatim>\<open>_calculate_next_run\<close> raises.
\<close>

definition execute_task :: "Scheduler \<Rightarrow> string \<Rightarrow> datetime \<Rightarrow> Scheduler" where
  "execute_task s tid now =
     (case map_of (scheduled_tasks s) tid of
        None \<Rightarrow> s
      | Some task \<Rightarrow>
          if \<not> is_active task then s
          else
            let task1 = task\<lparr>last_run := Some now, total_runs := total_runs task + 1\<rparr>;
                success = run_task_handler s task1;
                task2 = (if success then task1\<lparr>success_count := success_count task1 + 1\<rparr>
                         else task1\<lparr>fail_count := fail_count task1 + 1\<rparr>);
                task3 = (case calculate_next_run task2 now of
                           Inr r \<Rightarrow> task2\<lparr>next_run := Some r\<rparr>
                         | Inl e \<Rightarrow> task2\<lparr>fail_count := fail_count task2 + 1\<rparr>)
            in s\<lparr>scheduled_tasks := AList.update tid task3 (scheduled_tasks s)\<rparr>)"

text \<open>\<^verbatim>\<open>run_task_now\<close>.\<close>

definition run_task_now :: "Scheduler \<Rightarrow> string \<Rightarrow> bool \<times> Scheduler" where
  "run_task_now s tid =
     (case map_of (scheduled_tasks s) tid of
        Some task \<Rightarrow>
          let success = run_task_handler s task;
              task' = (if success then task\<lparr>success_count := success_count task + 1\<rparr>
                       else task\<lparr>fail_count := fail_count task + 1\<rparr>)
          in (success, s\<lparr>scheduled_tasks := AList.update tid task' (scheduled_tasks s)\<rparr>)
      | None \<Rightarrow> (False, s))"

text \<open>
  \<^verbatim>\<open>get_tasks\<close> and \<^verbatim>\<open>get_scheduler_stats\<close>. Python's \<^verbatim>\<open>/\<close> raises
  \<^verbatim>\<open>ZeroDivisionError\<close> on a zero divisor; the quotient is kept exact (a
  rational) where Python rounds to a float. Neither function catches exceptions.
\<close>

definition py_truediv :: "int \<Rightarrow> int \<Rightarrow> py_error + rat" where
  "py_truediv a b = (if b = 0 then Inl ZeroDivisionError else Inr (of_int a / of_int b))"

definition success_rate_of :: "int \<Rightarrow> int \<Rightarrow> py_error + rat" where
  "success_rate_of successes runs =
     (if runs > 0 then
        (case py_truediv successes runs of Inl e \<Rightarrow> Inl e | Inr q \<Rightarrow> Inr (q * 100))
      else Inr 0)"

record task_summary =
  s_id :: string
  s_name :: string
  s_task_type :: string
  s_frequency :: string
  s_schedule_time :: string
  s_is_active :: bool
  s_last_run :: "string option"
  s_next_run :: "string option"
  s_total_runs :: int
  s_success_count :: int
  s_fail_count :: int
  s_success_rate :: rat

definition summary :: "ScheduledTask \<Rightarrow> py_error + task_summary" where
  "summary task =
     (case success_rate_of (success_count task) (total_runs task) of
        Inl e \<Rightarrow> Inl e
      | Inr rate \<Rightarrow>
          Inr \<lparr>s_id = task_id task, s_name = name task,
               s_task_type = TaskType_value (task_type task),
               s_frequency = ScheduleFrequency_value (frequency task),
               s_schedule_time = schedule_time task, s_is_active = is_active task,
               s_last_run = map_option isoformat (last_run task),
               s_next_run = map_option isoformat (next_run task),
               s_total_runs = total_runs task, s_success_count = success_count task,
               s_fail_count = fail_count task, s_success_rate = rate\<rparr>)"

fun summaries :: "ScheduledTask list \<Rightarrow> py_error + task_summary list" where
  "summaries [] = Inr []"
| "summaries (task # tasks) =
     (case summary task of
        Inl e \<Rightarrow> Inl e
      | Inr x \<Rightarrow> (case summaries tasks of Inl e \<Rightarrow> Inl e | Inr xs \<Rightarrow> Inr (x # xs)))"

definition sort_key_of :: "task_summary \<Rightarrow> string" where
  "sort_key_of x = (case s_next_run x of Some t \<Rightarrow> t | None \<Rightarrow> ''9999-12-31'')"

definition get_tasks :: "Scheduler \<Rightarrow> bool \<Rightarrow> py_error + task_summary list" where
  "get_tasks s active_only =
     (case summaries (filter (\<lambda>task. \<not> (active_only \<and> \<not> is_active task))
                             (map snd (scheduled_tasks s))) of
        Inl e \<Rightarrow> Inl e
      | Inr tasks_list \<Rightarrow> Inr (sort_key sort_key_of tasks_list))"

record scheduler_stats =
  st_total_tasks :: int
  st_active_tasks :: int
  st_total_runs :: int
  st_total_success :: int
  st_total_fail :: int
  st_success_rate :: rat
  st_upcoming_tasks :: "(string \<times> string \<times> string) list"
  st_scheduler_running :: bool

definition upcoming :: "datetime \<Rightarrow> ScheduledTask \<Rightarrow> (string \<times> string \<times> string) option" where
  "upcoming one_hour_later task =
     (case next_run task of
        None \<Rightarrow> None
      | Some t \<Rightarrow>
          if is_active task \<and> dt_le t one_hour_later
          then Some (name task, isoformat t, TaskType_value (task_type task))
          else None)"

definition get_scheduler_stats :: "Scheduler \<Rightarrow> datetime \<Rightarrow> py_error + scheduler_stats" where
  "get_scheduler_stats s now =
     (let tasks = map snd (scheduled_tasks s);
          runs = sum_list (map total_runs tasks);
          total_success = sum_list (map success_count tasks);
          total_fail = sum_list (map fail_count tasks)
      in case dt_add now 0 3600 of
           Inl e \<Rightarrow> Inl e
         | Inr one_hour_later \<Rightarrow>
             (case success_rate_of total_success runs of
                Inl e \<Rightarrow> Inl e
              | Inr rate \<Rightarrow>
                  Inr \<lparr>st_total_tasks = int (length tasks),
                       st_active_tasks = int (length (filter is_active tasks)),
                       st_total_runs = runs,
                       st_total_success = total_success,
                       st_total_fail = total_fail,
                       st_success_rate = rate,
                       st_upcoming_tasks =
                         List.map_filter (upcoming one_hour_later) tasks,
                       st_scheduler_running = running s\<rparr>))"


section \<open>The collector (\<^verbatim>\<open>auto_collector.py\<close>)\<close>

text \<open>
  The collector works through collaborators whose modules are not part of the two files:
  the group directory (\<^verbatim>\<open>GroupManager.get_all_groups\<close>), the message source
  (\<^verbatim>\<open>MessageHandler.get_group_messages\<close>), the link scraper
  (\<^verbatim>\<open>LinkScraper.extract_links\<close>, \<^verbatim>\<open>categorize_link\<close>) and the persistence
  gateway (the \<^verbatim>\<open>database_handler\<close> given to the constructor). They are parameters
  of the model; each call returns or raises.
\<close>

record message =
  body :: string
  message_id :: string
  sender :: string

record group =
  group_id :: string
  group_name :: string

text \<open>The dictionary handed to \<^verbatim>\<open>save_link\<close>.\<close>

record link_data =
  ld_session_id :: string
  ld_url :: string
  ld_found_in :: string
  ld_group_id :: string
  ld_message_id :: string
  ld_category :: string
  ld_metadata :: "string \<times> string \<times> string"

text \<open>
  The gateway is stateful: what \<^verbatim>\<open>save_link\<close> answers may depend on every earlier
  call. The model keeps the calls made so far, each with its answer, and an answer
  function of that history and the new record.
\<close>

record gateway =
  respond :: "(link_data \<times> bool outcome) list \<Rightarrow> link_data \<Rightarrow> bool outcome"
  calls :: "(link_data \<times> bool outcome) list"

definition save_link :: "gateway \<Rightarrow> link_data \<Rightarrow> bool outcome \<times> gateway" where
  "save_link gw d = (let r = respond gw (calls gw) d in (r, gw\<lparr>calls := calls gw @ [(d, r)]\<rparr>))"

record collaborators =
  get_all_groups :: "group list outcome"
  get_group_messages :: "string \<Rightarrow> message list outcome"
  extract_links :: "string \<Rightarrow> string list outcome"
  categorize_link :: "string \<Rightarrow> string outcome"

text \<open>
  The state of an \<^verbatim>\<open>AutoCollector\<close>: the client's two attributes that are read, the
  gateway, the running flag, the entries of \<^verbatim>\<open>collection_stats\<close>, the set of
  collected URLs and the time of the last check of each group.
\<close>

record AutoCollector =
  client_is_connected :: bool
  client_session_id :: "string option"
  db :: "gateway option"
  is_collecting :: bool
  total_links :: int
  last_collection :: "string option"
  collections_today :: int
  last_collection_date :: "(int \<times> int \<times> int) option"
  collected_urls :: "string set"
  collection_interval :: int
  last_group_check :: "string \<Rightarrow> datetime option"

text \<open>\<^verbatim>\<open>__init__\<close>.\<close>

definition init_collector :: "bool \<Rightarrow> string option \<Rightarrow> gateway option \<Rightarrow> AutoCollector" where
  "init_collector is_conn session gw =
     \<lparr>client_is_connected = is_conn, client_session_id = session, db = gw,
      is_collecting = False, total_links = 0, last_collection = None, collections_today = 0,
      last_collection_date = None, collected_urls = {}, collection_interval = 300,
      last_group_check = (\<lambda>g. None)\<rparr>"

definition link_record ::
  "AutoCollector \<Rightarrow> string \<Rightarrow> string \<Rightarrow> message \<Rightarrow> string \<Rightarrow> string \<Rightarrow> link_data" where
  "link_record c gid gname msg link category =
     \<lparr>ld_session_id = (case client_session_id c of Some i \<Rightarrow> i | None \<Rightarrow> ''unknown''),
      ld_url = link,
      ld_found_in = gname @ '' - '' @ sender msg,
      ld_group_id = gid,
      ld_message_id = message_id msg,
      ld_category = category,
      ld_metadata = (gname, sender msg, take 100 (body msg))\<rparr>"

text \<open>
  \<^verbatim>\<open>_process_group_messages\<close>. \<open>process_links\<close> is the loop over the links of one
  message: an exception of a collaborator leaves that loop (the handler around the
  message catches it); what was counted and stored before stays. \<open>process_messages\<close>
  is the loop over the messages.
\<close>

fun process_links ::
  "collaborators \<Rightarrow> string \<Rightarrow> string \<Rightarrow> message \<Rightarrow> string list \<Rightarrow> int \<times> AutoCollector
     \<Rightarrow> int \<times> AutoCollector" where
  "process_links w gid gname msg [] acc = acc"
| "process_links w gid gname msg (link # links) (n, c) =
     (if link \<in> collected_urls c then process_links w gid gname msg links (n, c)
      else
        (case categorize_link w link of
           Raises \<Rightarrow> (n, c)
         | Returns category \<Rightarrow>
             (case db c of
                None \<Rightarrow> process_links w gid gname msg links (n, c)
              | Some gw \<Rightarrow>
                  (case save_link gw (link_record c gid gname msg link category) of
                     (Raises, gw') \<Rightarrow> (n, c\<lparr>db := Some gw'\<rparr>)
                   | (Returns success, gw') \<Rightarrow>
                       if success
                       then process_links w gid gname msg links
                              (n + 1, c\<lparr>db := Some gw',
                                        collected_urls := insert link (collected_urls c)\<rparr>)
                       else process_links w gid gname msg links (n, c\<lparr>db := Some gw'\<rparr>)))))"

fun process_messages ::
  "collaborators \<Rightarrow> string \<Rightarrow> string \<Rightarrow> message list \<Rightarrow> int \<times> AutoCollector
     \<Rightarrow> int \<times> AutoCollector" where
  "process_messages w gid gname [] acc = acc"
| "process_messages w gid gname (msg # msgs) acc =
     (if body msg = [] then process_messages w gid gname msgs acc
      else
        (case extract_links w (body msg) of
           Raises \<Rightarrow> process_messages w gid gname msgs acc
         | Returns all_links \<Rightarrow>
             process_messages w gid gname msgs (process_links w gid gname msg all_links acc)))"

definition process_group_messages ::
  "collaborators \<Rightarrow> AutoCollector \<Rightarrow> message list \<Rightarrow> string \<Rightarrow> string \<Rightarrow> int \<times> AutoCollector" where
  "process_group_messages w c messages gid gname = process_messages w gid gname messages (0, c)"

text \<open>
  \<^verbatim>\<open>_collect_from_all_groups\<close>. \<open>collect_groups\<close> is the loop over the groups with
  the running total. The flag \<^verbatim>\<open>is_collecting\<close> is read at the start of every
  iteration; the pass itself never writes it.
\<close>

definition checked_recently :: "AutoCollector \<Rightarrow> string \<Rightarrow> datetime \<Rightarrow> bool" where
  "checked_recently c gid now =
     (case last_group_check c gid of
        None \<Rightarrow> False
      | Some last_check \<Rightarrow> total_microseconds now last_check < 3600 * 1000000)"

fun collect_groups ::
  "collaborators \<Rightarrow> datetime \<Rightarrow> group list \<Rightarrow> int \<times> AutoCollector \<Rightarrow> int \<times> AutoCollector" where
  "collect_groups w now [] acc = acc"
| "collect_groups w now (g # gs) (collected, c) =
     (if \<not> is_collecting c then (collected, c)
      else if checked_recently c (group_id g) now then collect_groups w now gs (collected, c)
      else
        (case get_group_messages w (group_id g) of
           Raises \<Rightarrow> collect_groups w now gs (collected, c)
         | Returns messages \<Rightarrow>
             (case process_group_messages w c messages (group_id g) (group_name g) of
                (links_collected, c') \<Rightarrow>
                  collect_groups w now gs
                    (collected + links_collected,
                     c'\<lparr>last_group_check := (last_group_check c')(group_id g := Some now)\<rparr>))))"

definition collect_from_all_groups :: "collaborators \<Rightarrow> AutoCollector \<Rightarrow> datetime \<Rightarrow> AutoCollector" where
  "collect_from_all_groups w c now =
     (case get_all_groups w of
        Raises \<Rightarrow> c
      | Returns groups \<Rightarrow>
          if groups = [] then c
          else
            (case collect_groups w now groups (0, c) of
               (total_links_collected, c') \<Rightarrow>
                 c'\<lparr>total_links := total_links c' + total_links_collected,
                    last_collection := Some (isoformat now)\<rparr>))"

text \<open>\<^verbatim>\<open>_reset_daily_counter_if_needed\<close>.\<close>

definition reset_daily_counter_if_needed :: "AutoCollector \<Rightarrow> datetime \<Rightarrow> AutoCollector" where
  "reset_daily_counter_if_needed c now =
     (let today = (year now, month now, day now)
      in if last_collection_date c \<noteq> Some today
         then c\<lparr>collections_today := 0, last_collection_date := Some today\<rparr>
         else c)"

text \<open>
  \<^verbatim>\<open>_collection_loop\<close>. \<open>collection_loop_body\<close> is one iteration of the
  \<^verbatim>\<open>while\<close> loop; it tells which branch was taken and how many seconds the loop
  then sleeps. The loop runs until the flag is cleared; \<open>collection_loop\<close> runs it over
  the clock readings of its successive iterations, as many as are given.
\<close>

datatype loop_step = CoolDown int | Pass int

definition collection_loop_body ::
  "collaborators \<Rightarrow> int \<Rightarrow> AutoCollector \<Rightarrow> datetime \<Rightarrow> loop_step \<times> AutoCollector" where
  "collection_loop_body w interval c now =
     (let c1 = reset_daily_counter_if_needed c now
      in if collections_today c1 \<ge> 50 then (CoolDown 3600, c1)
         else
           (let c2 = collect_from_all_groups w c1 now
            in (Pass interval, c2\<lparr>collections_today := collections_today c2 + 1\<rparr>)))"

fun collection_loop ::
  "collaborators \<Rightarrow> int \<Rightarrow> AutoCollector \<Rightarrow> datetime list \<Rightarrow> loop_step list \<times> AutoCollector" where
  "collection_loop w interval c [] = ([], c)"
| "collection_loop w interval c (now # nows) =
     (if \<not> is_collecting c then ([], c)
      else
        (case collection_loop_body w interval c now of
           (step, c') \<Rightarrow>
             (case collection_loop w interval c' nows of
                (steps, c'') \<Rightarrow> (step # steps, c''))))"

section \<open>Notions used in the statements and proofs\<close>

text \<open>The date of a datetime as a triple, its key for comparison and its ordinal.\<close>

definition date_of :: "datetime \<Rightarrow> int \<times> int \<times> int" where
  "date_of dt = (year dt, month dt, day dt)"

definition date_key :: "int \<times> int \<times> int \<Rightarrow> int list" where
  "date_key = (\<lambda>(y, m, d). [y, m, d])"

definition ymd_ord :: "int \<times> int \<times> int \<Rightarrow> int" where
  "ymd_ord = (\<lambda>(y, m, d). ymd2ord y m d)"

definition md_ok :: "int \<times> int \<times> int \<Rightarrow> bool" where
  "md_ok = (\<lambda>(y, m, d). 1 \<le> m \<and> m \<le> 12 \<and> 1 \<le> d \<and> d \<le> days_in_month y m)"

text \<open>The time of day \<open>t\<close> (hour and minute) on a given date.\<close>

definition at_time :: "int \<times> int \<times> int \<Rightarrow> int \<times> int \<Rightarrow> datetime" where
  "at_time ymd t = (case ymd of (y, m, d) \<Rightarrow>
     \<lparr>year = y, month = m, day = d, hour = fst t, minute = snd t, second = 0, microsecond = 0\<rparr>)"



text \<open>
  The weekly rule in the words of the specification, for an anchor weekday given as a
  number (Monday is 0): the time of day on the next date whose weekday is the anchor's,
  starting from today; when that instant is not strictly after \<open>now\<close>, one week later.
\<close>

definition weekly_as_specified :: "int \<Rightarrow> int \<times> int \<Rightarrow> datetime \<Rightarrow> py_error + datetime" where
  "weekly_as_specified anchor_weekday t now =
     (case dt_add (combine now t) ((anchor_weekday - weekday now) mod 7) 0 of
        Inl e \<Rightarrow> Inl e
      | Inr candidate \<Rightarrow>
          if dt_lt now candidate then Inr candidate else dt_add candidate 7 0)"


text \<open>The invariant of the counters of a task.\<close>

definition counters_ok :: "ScheduledTask \<Rightarrow> bool" where
  "counters_ok task = (success_count task + fail_count task \<le> total_runs task)"

text \<open>Instants used in the examples.\<close>

definition instant :: "int \<Rightarrow> int \<Rightarrow> int \<Rightarrow> int \<Rightarrow> int \<Rightarrow> int \<Rightarrow> datetime" where
  "instant y m d hh mm ss =
     \<lparr>year = y, month = m, day = d, hour = hh, minute = mm, second = ss, microsecond = 0\<rparr>"




definition only_gateway_and_urls :: "AutoCollector \<Rightarrow> AutoCollector \<Rightarrow> bool" where
  "only_gateway_and_urls c c' = (c' = c\<lparr>db := db c', collected_urls := collected_urls c'\<rparr>)"







definition http_words :: "string \<Rightarrow> string list outcome" where
  "http_words text = Returns (filter (\<lambda>word. take 7 word = ''http://'') (split_on CHR '' '' text))"

definition example_world :: "group list \<Rightarrow> (string \<Rightarrow> message list outcome) \<Rightarrow> collaborators" where
  "example_world groups fetch =
     \<lparr>get_all_groups = Returns groups, get_group_messages = fetch,
      extract_links = http_words, categorize_link = (\<lambda>link. Returns ''other'')\<rparr>"

definition text_message :: "string \<Rightarrow> message" where
  "text_message t = \<lparr>body = t, message_id = ''m'', sender = ''s''\<rparr>"

definition running_collector :: "gateway option \<Rightarrow> AutoCollector" where
  "running_collector gw = (init_collector True (Some ''session'') gw)\<lparr>is_collecting := True\<rparr>"


definition accept_all :: "string \<Rightarrow> bool" where
  "accept_all e = True"

definition always_raises :: "string \<Rightarrow> message list outcome" where
  "always_raises gid = Raises"



definition failing_handlers :: "TaskType \<Rightarrow> handler option" where
  "failing_handlers t = Some (\<lambda>cfg. Raises)"

definition scheduler_with :: "(TaskType \<Rightarrow> handler option) \<Rightarrow> ScheduledTask list \<Rightarrow> Scheduler" where
  "scheduler_with handlers tasks =
     (init_scheduler False accept_all)
       \<lparr>scheduled_tasks := map (\<lambda>task. (task_id task, task)) tasks, task_handlers := handlers\<rparr>"

definition capped_collector :: AutoCollector where
  "capped_collector =
     (running_collector None)\<lparr>collections_today := 50, last_collection_date := Some (2024, 1, 1)\<rparr>"

definition group_one :: group where
  "group_one = \<lparr>group_id = ''g1'', group_name = ''one''\<rparr>"

definition group_two :: group where
  "group_two = \<lparr>group_id = ''g2'', group_name = ''two''\<rparr>"

definition two_groups :: "group list" where
  "two_groups = [group_one, group_two]"

definition fetch_second_only :: "string \<Rightarrow> message list outcome" where
  "fetch_second_only gid =
     (if gid = ''g2'' then Returns [text_message ''see http://a.example/1 too''] else Raises)"





section \<open>Calendar arithmetic\<close>


lemma div_step:
  fixes y n :: int
  assumes "0 < n"
  shows "y div n = (y - 1) div n + (if y mod n = 0 then 1 else 0)"
proof (cases "y mod n = 0")
  case True
  then have y: "y = n * (y div n)" by (simp add: mod_eq_0_iff_dvd)
  have "y - 1 = n * (y div n - 1) + (n - 1)"
    using y by (simp add: algebra_simps)
  then have "(y - 1) div n = y div n - 1"
    using assms by (intro int_div_pos_eq [where r = "n - 1"]) simp_all
  with True show ?thesis by simp
next
  case False
  have pos: "0 \<le> y mod n" "y mod n < n" using assms by simp_all
  have "y - 1 = n * (y div n) + (y mod n - 1)" by simp
  then have "(y - 1) div n = y div n"
    using assms False pos by (intro int_div_pos_eq [where r = "y mod n - 1"]) simp_all
  with False show ?thesis by simp
qed

lemma mod_400_100: "(y::int) mod 400 = 0 \<Longrightarrow> y mod 100 = 0"
proof -
  assume "y mod 400 = 0"
  then have "400 dvd y" by (simp add: mod_eq_0_iff_dvd)
  moreover have "(100::int) dvd 400" by simp
  ultimately have "100 dvd y" by (rule dvd_trans [rotated])
  then show ?thesis by (simp add: mod_eq_0_iff_dvd)
qed

lemma mod_100_4: "(y::int) mod 100 = 0 \<Longrightarrow> y mod 4 = 0"
proof -
  assume "y mod 100 = 0"
  then have "100 dvd y" by (simp add: mod_eq_0_iff_dvd)
  moreover have "(4::int) dvd 100" by simp
  ultimately have "4 dvd y" by (rule dvd_trans [rotated])
  then show ?thesis by (simp add: mod_eq_0_iff_dvd)
qed


lemma days_before_year_step:
  "days_before_year (y + 1) = days_before_year y + (if is_leap y then 366 else 365)"
proof -
  define a where "a = (y - 1) div 4"
  define b where "b = (y - 1) div 100"
  define c where "c = (y - 1) div 400"
  have l: "days_before_year (y + 1) = y * 365 + y div 4 - y div 100 + y div 400"
    by (simp add: days_before_year_def)
  have r: "days_before_year y = (y - 1) * 365 + a - b + c"
    by (simp add: days_before_year_def Let_def a_def b_def c_def)
  have e4: "y div 4 = a + (if y mod 4 = 0 then 1 else 0)"
    unfolding a_def by (rule div_step) simp
  have e100: "y div 100 = b + (if y mod 100 = 0 then 1 else 0)"
    unfolding b_def by (rule div_step) simp
  have e400: "y div 400 = c + (if y mod 400 = 0 then 1 else 0)"
    unfolding c_def by (rule div_step) simp
  show ?thesis
  proof (cases "y mod 4 = 0")
    case False
    then have "y mod 100 \<noteq> 0" using mod_100_4 [of y] by auto
    moreover from this have "y mod 400 \<noteq> 0" using mod_400_100 [of y] by auto
    ultimately show ?thesis
      using False unfolding l r e4 e100 e400 is_leap_def by simp
  next
    case four: True
    show ?thesis
    proof (cases "y mod 100 = 0")
      case False
      then have "y mod 400 \<noteq> 0" using mod_400_100 [of y] by auto
      with four False show ?thesis
        unfolding l r e4 e100 e400 is_leap_def by simp
    next
      case True
      with four show ?thesis
        unfolding l r e4 e100 e400 is_leap_def by simp
    qed
  qed
qed

lemma days_before_year_mono: "y \<le> z \<Longrightarrow> days_before_year y \<le> days_before_year z"
proof (induction z rule: int_ge_induct)
  case base
  show ?case by simp
next
  case (step i)
  have "days_before_year i \<le> days_before_year (i + 1)"
    by (simp add: days_before_year_step)
  with step show ?case by linarith
qed

lemma month_cases:
  "1 \<le> (m::int) \<Longrightarrow> m \<le> 12 \<Longrightarrow>
   m = 1 \<or> m = 2 \<or> m = 3 \<or> m = 4 \<or> m = 5 \<or> m = 6 \<or> m = 7 \<or> m = 8 \<or> m = 9 \<or> m = 10 \<or> m = 11 \<or> m = 12"
  by presburger

lemma days_before_month_step:
  "1 \<le> m \<Longrightarrow> m < 12 \<Longrightarrow> days_before_month y (m + 1) = days_before_month y m + days_in_month y m"
  using month_cases [of m]
  by (auto simp add: days_before_month_def days_in_month_def DAYS_BEFORE_MONTH_def DAYS_IN_MONTH_def)

lemma days_before_month_last:
  "days_before_month y 12 + days_in_month y 12 = (if is_leap y then 366 else 365)"
  by (simp add: days_before_month_def days_in_month_def DAYS_BEFORE_MONTH_def DAYS_IN_MONTH_def)

lemma days_before_month_first: "days_before_month y 1 = 0"
  by (simp add: days_before_month_def DAYS_BEFORE_MONTH_def)


lemma days_in_month_ge: "1 \<le> m \<Longrightarrow> m \<le> 12 \<Longrightarrow> 28 \<le> days_in_month y m"
  using month_cases [of m]
  by (auto simp add: days_in_month_def DAYS_IN_MONTH_def)

lemma next_day_md_ok: "md_ok t \<Longrightarrow> md_ok (next_day t)"
proof (cases t)
  case (fields y m d)
  assume "md_ok t"
  with fields have m: "1 \<le> m" "m \<le> 12" and d: "1 \<le> d" "d \<le> days_in_month y m"
    by (simp_all add: md_ok_def)
  have "28 \<le> days_in_month y (m + 1)" if "m < 12"
    using that m by (intro days_in_month_ge) simp_all
  moreover have "28 \<le> days_in_month (y + 1) 1"
    by (intro days_in_month_ge) simp_all
  ultimately show ?thesis
    using fields m d by (auto simp add: md_ok_def next_day_def)
qed

lemma next_day_ord: "md_ok t \<Longrightarrow> ymd_ord (next_day t) = ymd_ord t + 1"
proof (cases t)
  case (fields y m d)
  assume "md_ok t"
  with fields have m: "1 \<le> m" "m \<le> 12" and d: "1 \<le> d" "d \<le> days_in_month y m"
    by (simp_all add: md_ok_def)
  show ?thesis
  proof (cases "d < days_in_month y m")
    case True
    with fields show ?thesis by (simp add: next_day_def ymd_ord_def ymd2ord_def)
  next
    case last: False
    with d have deq: "d = days_in_month y m" by simp
    show ?thesis
    proof (cases "m < 12")
      case True
      with last fields deq m show ?thesis
        by (simp add: next_day_def ymd_ord_def ymd2ord_def days_before_month_step)
    next
      case False
      with m have m12: "m = 12" by simp
      have "days_before_year (y + 1) + days_before_month (y + 1) 1 + 1
            = days_before_year y + (days_before_month y 12 + days_in_month y 12) + 1"
        unfolding days_before_year_step days_before_month_last days_before_month_first by simp
      with last fields deq m12 show ?thesis
        by (simp add: next_day_def ymd_ord_def ymd2ord_def)
    qed
  qed
qed

lemma next_day_gt: "lex_lt (date_key t) (date_key (next_day t))"
  by (cases t) (simp add: date_key_def next_day_def)

lemma lex_lt_trans: "lex_lt a b \<Longrightarrow> lex_lt b c \<Longrightarrow> lex_lt a c"
proof (induction a b arbitrary: c rule: lex_lt.induct)
  case (1 x xs y ys)
  then show ?case by (cases c) auto
next
  case (2 y ys)
  then show ?case by (cases c) auto
next
  case (3 xs)
  then show ?case by simp
qed

lemma add_days_0: "k \<le> 0 \<Longrightarrow> add_days t k = t"
  by (simp add: add_days_def)

lemma add_days_Suc: "0 \<le> k \<Longrightarrow> add_days t (k + 1) = next_day (add_days t k)"
  by (simp add: add_days_def nat_add_distrib)

lemma add_days_md_ok: "0 \<le> k \<Longrightarrow> md_ok t \<Longrightarrow> md_ok (add_days t k)"
proof (induction k rule: int_ge_induct)
  case base
  then show ?case by (simp add: add_days_0)
next
  case (step i)
  then show ?case by (simp add: add_days_Suc next_day_md_ok)
qed

lemma ymd_ord_add_days: "0 \<le> k \<Longrightarrow> md_ok t \<Longrightarrow> ymd_ord (add_days t k) = ymd_ord t + k"
proof (induction k rule: int_ge_induct)
  case base
  then show ?case by (simp add: add_days_0)
next
  case (step i)
  then show ?case by (simp add: add_days_Suc next_day_ord add_days_md_ok)
qed

lemma add_days_gt: "1 \<le> k \<Longrightarrow> lex_lt (date_key t) (date_key (add_days t k))"
proof (induction k rule: int_ge_induct)
  case base
  have "add_days t 1 = next_day t" using add_days_Suc [of 0 t] by (simp add: add_days_0)
  then show ?case by (simp add: next_day_gt)
next
  case (step i)
  have "add_days t (i + 1) = next_day (add_days t i)" using step.hyps by (simp add: add_days_Suc)
  then show ?case using step.IH next_day_gt [of "add_days t i"] by (auto intro: lex_lt_trans)
qed


subsection \<open>Bounds of ordinals\<close>

lemma days_before_month_bound:
  "md_ok (y, m, d) \<Longrightarrow> 0 \<le> days_before_month y m \<and> days_before_month y m + d \<le> (if is_leap y then 366 else 365)"
  using month_cases [of m]
  by (auto simp add: md_ok_def days_before_month_def days_in_month_def DAYS_BEFORE_MONTH_def DAYS_IN_MONTH_def split: if_splits)

lemma days_before_year_1: "days_before_year 1 = 0"
  by (simp add: days_before_year_def)

lemma days_before_year_9999: "days_before_year 9999 = 3651694"
  by (simp add: days_before_year_def)

lemma toordinal_bounds:
  assumes "valid_datetime dt" "year dt < MAXYEAR"
  shows "1 \<le> toordinal dt" "toordinal dt \<le> 3651694"
proof -
  from assms(1) have ok: "md_ok (year dt, month dt, day dt)" and y1: "1 \<le> year dt"
    by (simp_all add: valid_datetime_def valid_date_def md_ok_def)
  from ok have d: "1 \<le> day dt" by (simp add: md_ok_def)
  note b = days_before_month_bound [OF ok]
  have "0 \<le> days_before_year (year dt)"
    using days_before_year_mono [OF y1] by (simp add: days_before_year_1)
  with b d show "1 \<le> toordinal dt" by (simp add: toordinal_def ymd2ord_def)
  have "toordinal dt \<le> days_before_year (year dt + 1)"
    using b by (simp add: toordinal_def ymd2ord_def days_before_year_step split: if_splits)
  also have "\<dots> \<le> days_before_year 9999"
    using assms(2) by (intro days_before_year_mono) (simp add: MAXYEAR_def)
  finally show "toordinal dt \<le> 3651694" by (simp add: days_before_year_9999)
qed


subsection \<open>Comparison\<close>

lemma lex_lt_total: "length a = length b \<Longrightarrow> lex_lt a b \<or> a = b \<or> lex_lt b a"
proof (induction a b rule: lex_lt.induct)
  case (1 x xs y ys)
  then show ?case by auto
qed simp_all

lemma dt_lt_total: "\<not> dt_le a b \<Longrightarrow> dt_lt b a"
  using lex_lt_total [of "dt_key a" "dt_key b"]
  by (auto simp add: dt_le_def dt_lt_def dt_key_def)

lemma dt_lt_by_date: "lex_lt (date_key (date_of a)) (date_key (date_of b)) \<Longrightarrow> dt_lt a b"
  by (auto simp add: dt_lt_def dt_key_def date_key_def date_of_def)

lemma date_of_at_time: "date_of (at_time ymd t) = ymd"
  by (cases ymd) (simp add: date_of_def at_time_def)

lemma date_of_combine: "date_of (combine now t) = date_of now"
  by (simp add: date_of_def combine_def)

lemma combine_at_time: "combine now t = at_time (date_of now) t"
  by (simp add: combine_def at_time_def date_of_def)

subsection \<open>Adding a timedelta\<close>

lemma hms_lex:
  fixes h mi s h' m' s' :: int
  assumes "h * 3600 + mi * 60 + s < h' * 3600 + m' * 60 + s'"
    and "0 \<le> mi" "mi < 60" "0 \<le> s" "s < 60" "0 \<le> m'" "m' < 60" "0 \<le> s'" "s' < 60"
  shows "h < h' \<or> (h = h' \<and> (mi < m' \<or> (mi = m' \<and> s < s')))"
  using assms by linarith

lemma hms_decompose:
  fixes x :: int
  shows "x = (x div 3600) * 3600 + (x mod 3600 div 60) * 60 + x mod 60"
proof -
  have "x mod 3600 mod 60 = x mod 60"
    by (rule mod_mod_cancel) simp
  then have "x mod 3600 = (x mod 3600 div 60) * 60 + x mod 60"
    using div_mult_mod_eq [of "x mod 3600" 60] by simp
  then show ?thesis
    using div_mult_mod_eq [of x 3600] by linarith
qed

lemma dt_add_unfold:
  "dt_add dt td_days td_seconds =
     (if 0 < toordinal dt + (td_days + (hour dt * 3600 + minute dt * 60 + second dt + td_seconds) div 86400)
         \<and> toordinal dt + (td_days + (hour dt * 3600 + minute dt * 60 + second dt + td_seconds) div 86400) \<le> MAXORDINAL
      then Inr ((at_time (add_days (date_of dt)
                   (td_days + (hour dt * 3600 + minute dt * 60 + second dt + td_seconds) div 86400))
                   ((hour dt * 3600 + minute dt * 60 + second dt + td_seconds) mod 86400 div 3600,
                    (hour dt * 3600 + minute dt * 60 + second dt + td_seconds) mod 86400 mod 3600 div 60))
                 \<lparr>second := (hour dt * 3600 + minute dt * 60 + second dt + td_seconds) mod 86400 mod 60,
                  microsecond := microsecond dt\<rparr>)
      else Inl OverflowError)"
  by (cases "add_days (date_of dt) (td_days + (hour dt * 3600 + minute dt * 60 + second dt + td_seconds) div 86400)")
     (simp add: dt_add_def Let_def at_time_def date_of_def)


lemma toordinal_at_time: "toordinal (at_time ymd t) = ymd_ord ymd"
  by (cases ymd) (simp add: toordinal_def at_time_def ymd_ord_def)

lemma toordinal_date_of: "toordinal dt = ymd_ord (date_of dt)"
  by (simp add: toordinal_def date_of_def ymd_ord_def)

lemma hm_seconds:
  fixes h m :: int
  assumes "0 \<le> h" "h < 24" "0 \<le> m" "m < 60"
  shows "(h * 3600 + m * 60) div 86400 = 0"
    and "(h * 3600 + m * 60) mod 86400 = h * 3600 + m * 60"
    and "(h * 3600 + m * 60) div 3600 = h"
    and "(h * 3600 + m * 60) mod 3600 = m * 60"
    and "m * 60 mod 3600 = m * 60"
proof -
  have range: "0 \<le> h * 3600 + m * 60" "h * 3600 + m * 60 < 86400"
    using assms by linarith+
  show "(h * 3600 + m * 60) div 86400 = 0"
    using range by (simp add: div_pos_pos_trivial)
  show "(h * 3600 + m * 60) mod 86400 = h * 3600 + m * 60"
    using range by (simp add: mod_pos_pos_trivial)
  have m60: "0 \<le> m * 60" "m * 60 < 3600" using assms by linarith+
  show "(h * 3600 + m * 60) div 3600 = h"
    using m60 by (intro int_div_pos_eq [where r = "m * 60"]) simp_all
  show "(h * 3600 + m * 60) mod 3600 = m * 60"
    using m60 by (intro int_mod_pos_eq [where q = h]) simp_all
  show "m * 60 mod 3600 = m * 60"
    using m60 by (simp add: mod_pos_pos_trivial)
qed

lemma dt_add_days_at_time:
  assumes t: "0 \<le> fst t" "fst t < 24" "0 \<le> snd t" "snd t < 60"
    and k: "0 < ymd_ord ymd + k" "ymd_ord ymd + k \<le> MAXORDINAL"
  shows "dt_add (at_time ymd t) k 0 = Inr (at_time (add_days ymd k) t)"
proof -
  obtain y m d where ymd: "ymd = (y, m, d)" by (cases ymd)
  obtain y' m' d' where res: "add_days ymd k = (y', m', d')" by (cases "add_days ymd k")
  note hm = hm_seconds [OF t]
  have f: "hour (at_time ymd t) = fst t" "minute (at_time ymd t) = snd t"
    "second (at_time ymd t) = 0" "microsecond (at_time ymd t) = 0"
    by (simp_all add: at_time_def ymd)
  show ?thesis
    unfolding dt_add_unfold f toordinal_at_time date_of_at_time
    using k by (simp add: hm res at_time_def)
qed

lemma dt_add_exists:
  assumes v: "valid_datetime dt" and y: "year dt < MAXYEAR"
    and d: "0 \<le> td_days" "td_days \<le> 7" and s: "0 \<le> td_seconds" "td_seconds \<le> 86400"
  shows "\<exists>r. dt_add dt td_days td_seconds = Inr r"
proof -
  define secs where "secs = hour dt * 3600 + minute dt * 60 + second dt + td_seconds"
  from v have "0 \<le> hour dt" "hour dt < 24" "0 \<le> minute dt" "minute dt < 60"
    "0 \<le> second dt" "second dt < 60"
    by (simp_all add: valid_datetime_def)
  with s have range: "0 \<le> secs" "secs \<le> 172799" unfolding secs_def by linarith+
  have lo: "0 \<le> secs div 86400" using range by (simp add: pos_imp_zdiv_nonneg_iff)
  have "secs div 86400 \<le> 172799 div 86400" using range by (intro zdiv_mono1) simp_all
  then have hi: "secs div 86400 \<le> 1" by simp
  note b = toordinal_bounds [OF v y]
  have "0 < toordinal dt + (td_days + secs div 86400)"
    and "toordinal dt + (td_days + secs div 86400) \<le> MAXORDINAL"
    using b lo hi d by (simp_all add: MAXORDINAL_def)
  then show ?thesis
    unfolding dt_add_unfold secs_def [symmetric] by simp
qed

lemma dt_add_gt:
  assumes t: "0 \<le> hour dt" "0 \<le> minute dt" "minute dt < 60" "0 \<le> second dt" "second dt < 60"
    and d: "0 \<le> td_days" and s: "0 \<le> td_seconds" and pos: "0 < td_days \<or> 0 < td_seconds"
    and r: "dt_add dt td_days td_seconds = Inr r"
  shows "dt_lt dt r"
proof -
  define secs where "secs = hour dt * 3600 + minute dt * 60 + second dt + td_seconds"
  define days where "days = td_days + secs div 86400"
  have nonneg: "0 \<le> secs" using t s unfolding secs_def by linarith
  then have carry: "0 \<le> secs div 86400" by (simp add: pos_imp_zdiv_nonneg_iff)
  from r have r_eq: "r = (at_time (add_days (date_of dt) days)
                   (secs mod 86400 div 3600, secs mod 86400 mod 3600 div 60))
                 \<lparr>second := secs mod 86400 mod 60, microsecond := microsecond dt\<rparr>"
    unfolding dt_add_unfold secs_def [symmetric] days_def [symmetric]
    by (simp split: if_splits)
  have date_r: "date_of r = add_days (date_of dt) days"
    unfolding r_eq by (cases "add_days (date_of dt) days") (simp add: date_of_def at_time_def)
  show ?thesis
  proof (cases "1 \<le> days")
    case True
    then show ?thesis
      using add_days_gt [of days "date_of dt"] by (intro dt_lt_by_date) (simp add: date_r)
  next
    case False
    with d carry have z: "td_days = 0" "secs div 86400 = 0" "days = 0"
      unfolding days_def by linarith+
    with pos have spos: "0 < td_seconds" by simp
    have small: "secs mod 86400 = secs"
      using div_mult_mod_eq [of secs 86400] z(2) by simp
    define h' where "h' = secs div 3600"
    define m' where "m' = secs mod 3600 div 60"
    define s' where "s' = secs mod 60"
    have dec: "secs = h' * 3600 + m' * 60 + s'"
      unfolding h'_def m'_def s'_def by (rule hms_decompose)
    have b: "0 \<le> m'" "m' < 60" "0 \<le> s'" "s' < 60"
      unfolding m'_def s'_def by (simp_all add: pos_imp_zdiv_nonneg_iff)
    have "hour dt * 3600 + minute dt * 60 + second dt < h' * 3600 + m' * 60 + s'"
      using spos dec unfolding secs_def by linarith
    from hms_lex [OF this t(2,3,4,5) b]
    have lex: "hour dt < h' \<or> (hour dt = h' \<and> (minute dt < m' \<or> (minute dt = m' \<and> second dt < s')))" .
    have fields: "year r = year dt" "month r = month dt" "day r = day dt"
      "hour r = h'" "minute r = m'" "second r = s'"
      using date_r unfolding z(3) r_eq small h'_def m'_def s'_def
      by (simp_all add: add_days_0 date_of_def at_time_def mod_mod_cancel)
    show ?thesis
      using lex by (auto simp add: dt_lt_def dt_key_def fields)
  qed
qed


subsection \<open>Parsing a time of day\<close>

lemma digit_val_range: "0 \<le> digit_val c \<and> digit_val c \<le> 9"
  by (simp add: digit_val_def)

lemma digit_val_le3: "c \<in> set ''0123'' \<Longrightarrow> digit_val c \<le> 3"
  by (auto simp add: digit_val_def)

lemma digit_val_le1: "c \<in> set ''01'' \<Longrightarrow> digit_val c \<le> 1"
  by (auto simp add: digit_val_def)

lemma digit_val_le5: "c \<in> set ''012345'' \<Longrightarrow> digit_val c \<le> 5"
  by (auto simp add: digit_val_def)

lemma H_alts_range:
  assumes "(h, r) \<in> set (H_alts s)"
  shows "0 \<le> h \<and> h < 24"
proof -
  have "\<exists>a b. (h = 20 + digit_val b \<and> b \<in> set ''0123'')
             \<or> (h = 10 * digit_val a + digit_val b \<and> a \<in> set ''01'')
             \<or> h = digit_val a"
    using assms unfolding H_alts_def
    by (cases s; cases "tl s") (auto split: if_splits)
  then obtain a b where
    "(h = 20 + digit_val b \<and> b \<in> set ''0123'')
       \<or> (h = 10 * digit_val a + digit_val b \<and> a \<in> set ''01'')
       \<or> h = digit_val a" by blast
  then show ?thesis
    using digit_val_range [of a] digit_val_range [of b] digit_val_le3 [of b] digit_val_le1 [of a]
    by linarith
qed

lemma M_alts_range:
  assumes "(m, r) \<in> set (M_alts s)"
  shows "0 \<le> m \<and> m < 60"
proof -
  have "\<exists>a b. (m = 10 * digit_val a + digit_val b \<and> a \<in> set ''012345'') \<or> m = digit_val a"
    using assms unfolding M_alts_def
    by (cases s; cases "tl s") (auto split: if_splits)
  then obtain a b where
    "(m = 10 * digit_val a + digit_val b \<and> a \<in> set ''012345'') \<or> m = digit_val a" by blast
  then show ?thesis
    using digit_val_range [of a] digit_val_range [of b] digit_val_le5 [of a]
    by linarith
qed

lemma HM_matches_range:
  assumes "((h, m), rest) \<in> set (HM_matches s)"
  shows "0 \<le> h \<and> h < 24 \<and> 0 \<le> m \<and> m < 60"
proof -
  from assms obtain r r' where "(h, r) \<in> set (H_alts s)" "(m, rest) \<in> set (M_alts r')"
    unfolding HM_matches_def by (auto split: list.splits if_splits)
  then show ?thesis using H_alts_range M_alts_range by blast
qed

lemma strptime_HM_range:
  assumes "strptime_HM s = Inr t"
  shows "0 \<le> fst t \<and> fst t < 24 \<and> 0 \<le> snd t \<and> snd t < 60"
proof -
  from assms have "(t, []) \<in> set (HM_matches s)"
    unfolding strptime_HM_def by (auto split: list.splits if_splits)
  then show ?thesis using HM_matches_range [of "fst t" "snd t" "[]" s] by simp
qed


text \<open>
  The regular expression of \<^verbatim>\<open>strptime\<close> and the reading of a schedule-spec as a
  time of day accept the same texts and give the same hour and minute.
\<close>

lemma split_on_nonempty: "split_on c s \<noteq> []"
  by (induction s) (auto split: list.splits)

lemma split_on_sep: "split_on c (c # s) = [] # split_on c s"
  by simp

lemma split_on_other: "a \<noteq> c \<Longrightarrow> split_on c s = p # ps \<Longrightarrow> split_on c (a # s) = (a # p) # ps"
  by simp

lemma split_on_one: "split_on c s = [x] \<longleftrightarrow> s = x \<and> c \<notin> set x"
proof (induction s arbitrary: x)
  case Nil
  show ?case by auto
next
  case (Cons a s)
  show ?case
  proof (cases "a = c")
    case True
    have "split_on c (a # s) \<noteq> [x]"
      using split_on_nonempty [of c s] unfolding True split_on_sep by simp
    moreover have "\<not> (a # s = x \<and> c \<notin> set x)" using True by auto
    ultimately show ?thesis by blast
  next
    case False
    obtain p ps where p: "split_on c s = p # ps"
      using split_on_nonempty [of c s] by (cases "split_on c s") simp_all
    note e = split_on_other [OF False p]
    show ?thesis
    proof
      assume "split_on c (a # s) = [x]"
      then have x: "x = a # p" "ps = []" unfolding e by simp_all
      with p have "split_on c s = [p]" by simp
      then have "s = p \<and> c \<notin> set p" unfolding Cons.IH .
      with x False show "a # s = x \<and> c \<notin> set x" by simp
    next
      assume r: "a # s = x \<and> c \<notin> set x"
      then obtain x' where x': "x = a # x'" "s = x'" "c \<notin> set x'" by (cases x) auto
      then have "split_on c s = [x']" unfolding Cons.IH by simp
      with p have "p = x'" "ps = []" by simp_all
      then show "split_on c (a # s) = [x]" unfolding e using x' by simp
    qed
  qed
qed

lemma split_on_two: "split_on c s = [x, y] \<longleftrightarrow> s = x @ c # y \<and> c \<notin> set x \<and> c \<notin> set y"
proof (induction s arbitrary: x)
  case Nil
  show ?case by auto
next
  case (Cons a s)
  show ?case
  proof (cases "a = c")
    case True
    show ?thesis
    proof
      assume "split_on c (a # s) = [x, y]"
      then have "x = []" "split_on c s = [y]" unfolding True split_on_sep by simp_all
      then show "a # s = x @ c # y \<and> c \<notin> set x \<and> c \<notin> set y"
        using True by (simp add: split_on_one)
    next
      assume r: "a # s = x @ c # y \<and> c \<notin> set x \<and> c \<notin> set y"
      with True have "x = []" by (cases x) auto
      with r have "s = y" "c \<notin> set y" by simp_all
      then have "split_on c s = [y]" by (simp add: split_on_one)
      then show "split_on c (a # s) = [x, y]" unfolding True split_on_sep using \<open>x = []\<close> by simp
    qed
  next
    case False
    obtain p ps where p: "split_on c s = p # ps"
      using split_on_nonempty [of c s] by (cases "split_on c s") simp_all
    note e = split_on_other [OF False p]
    show ?thesis
    proof
      assume "split_on c (a # s) = [x, y]"
      then have x: "x = a # p" "ps = [y]" unfolding e by simp_all
      with p have "split_on c s = [p, y]" by simp
      then have "s = p @ c # y \<and> c \<notin> set p \<and> c \<notin> set y" unfolding Cons.IH .
      with x False show "a # s = x @ c # y \<and> c \<notin> set x \<and> c \<notin> set y" by simp
    next
      assume r: "a # s = x @ c # y \<and> c \<notin> set x \<and> c \<notin> set y"
      with False obtain x' where x': "x = a # x'" by (cases x) auto
      with r have "s = x' @ c # y \<and> c \<notin> set x' \<and> c \<notin> set y" by simp
      then have "split_on c s = [x', y]" unfolding Cons.IH .
      with p have "p = x'" "ps = [y]" by simp_all
      then show "split_on c (a # s) = [x, y]" unfolding e using x' by simp
    qed
  qed
qed











subsection \<open>What the pattern of strptime accepts\<close>























subsection \<open>Validation accepts every time of day\<close>

lemma digit_plain:
  assumes "is_digit a"
  shows "\<not> py_isspace a" "a \<noteq> CHR ''+''" "a \<noteq> CHR ''-''" "a \<noteq> CHR ''_''"
  using assms by (auto simp add: is_digit_def py_isspace_def)

lemma py_strip_digits: "\<forall>c\<in>set s. is_digit c \<Longrightarrow> py_strip s = s"
proof -
  assume d: "\<forall>c\<in>set s. is_digit c"
  then have "\<forall>c\<in>set s. \<not> py_isspace c" using digit_plain(1) by blast
  then have 1: "dropWhile py_isspace s = s" by (cases s) simp_all
  from d have "\<forall>c\<in>set (rev s). \<not> py_isspace c" using digit_plain(1) by simp
  then have 2: "dropWhile py_isspace (rev s) = rev s" by (cases "rev s") simp_all
  show ?thesis by (simp add: py_strip_def 1 2)
qed




lemma lex_lt_irrefl: "\<not> lex_lt a a"
  by (induction a) simp_all

lemma lex_lt_asym: "lex_lt a b \<Longrightarrow> \<not> lex_lt b a"
  using lex_lt_trans [of a b a] lex_lt_irrefl [of a] by blast

lemma dt_le_iff_not_lt: "dt_le a b \<longleftrightarrow> \<not> dt_lt b a"
proof
  assume "dt_le a b"
  then show "\<not> dt_lt b a"
    using lex_lt_asym [of "dt_key a" "dt_key b"] lex_lt_irrefl [of "dt_key a"]
    by (auto simp add: dt_le_def dt_lt_def)
next
  assume "\<not> dt_lt b a"
  then show "dt_le a b" using dt_lt_total [of a b] by blast
qed

subsection \<open>The next run, case by case\<close>

lemma weekday_range: "0 \<le> weekday dt \<and> weekday dt < 7"
  by (simp add: weekday_def)

lemma add_days_combine:
  assumes v: "valid_datetime now" and y: "year now < MAXYEAR"
    and t: "strptime_HM spec = Inr t" and k: "0 \<le> k" "k \<le> 7"
  shows "dt_add (combine now t) k 0 = Inr (at_time (add_days (date_of now) k) t)"
proof -
  note b = toordinal_bounds [OF v y]
  have "0 < ymd_ord (date_of now) + k" "ymd_ord (date_of now) + k \<le> MAXORDINAL"
    using b k by (simp_all add: toordinal_date_of MAXORDINAL_def)
  with strptime_HM_range [OF t] show ?thesis
    unfolding combine_at_time by (intro dt_add_days_at_time) simp_all
qed

lemma after_date: "1 \<le> k \<Longrightarrow> dt_lt now (at_time (add_days (date_of now) k) t)"
  by (intro dt_lt_by_date) (simp add: date_of_at_time add_days_gt)

lemma fallback_next_run:
  assumes v: "valid_datetime now" and y: "year now < MAXYEAR"
    and s: "0 < td_seconds" "td_seconds \<le> 86400"
  shows "\<exists>r. dt_add now 0 td_seconds = Inr r \<and> dt_lt now r"
proof -
  from dt_add_exists [OF v y, of 0 td_seconds] s
  obtain r where r: "dt_add now 0 td_seconds = Inr r" by auto
  from v have "0 \<le> hour now" "0 \<le> minute now" "minute now < 60" "0 \<le> second now" "second now < 60"
    by (simp_all add: valid_datetime_def)
  from dt_add_gt [OF this _ _ _ r] s have "dt_lt now r" by simp
  with r show ?thesis by blast
qed

lemma daily_rule_eq:
  assumes f: "frequency task = DAILY" and t: "strptime_HM (schedule_time task) = Inr t"
    and v: "valid_datetime now" and y: "year now < MAXYEAR"
  shows "calculate_next_run task now =
           Inr (if dt_lt now (combine now t) then combine now t
                else at_time (next_day (date_of now)) t)"
proof -
  have one: "add_days (date_of now) 1 = next_day (date_of now)"
    using add_days_Suc [of 0 "date_of now"] by (simp add: add_days_0)
  have "dt_add (combine now t) 1 0 = Inr (at_time (next_day (date_of now)) t)"
    using add_days_combine [OF v y t, of 1] by (simp add: one)
  then show ?thesis
    by (simp add: calculate_next_run_def calculate_next_run_try_def f t Let_def dt_le_iff_not_lt)
qed

lemma weekly_rule_eq:
  assumes f: "frequency task = WEEKLY" and t: "strptime_HM (schedule_time task) = Inr t"
    and v: "valid_datetime now" and y: "year now < MAXYEAR"
  shows "calculate_next_run task now = Inr (at_time (add_days (date_of now) (7 - weekday now)) t)"
proof -
  have "0 \<le> 7 - weekday now" "7 - weekday now \<le> 7"
    using weekday_range [of now] by simp_all
  from add_days_combine [OF v y t this] show ?thesis
    by (simp add: calculate_next_run_def calculate_next_run_try_def f t)
qed

lemma monthly_rule_eq:
  assumes f: "frequency task = MONTHLY" and t: "strptime_HM (schedule_time task) = Inr t"
    and v: "valid_datetime now" and y: "year now < MAXYEAR"
  shows "calculate_next_run task now =
           Inr (at_time (if month now < 12 then (year now, month now + 1, 1)
                         else (year now + 1, 1, 1)) t)"
proof -
  note r = strptime_HM_range [OF t]
  from v have m: "1 \<le> month now" "month now \<le> 12" and y1: "1 \<le> year now"
    by (simp_all add: valid_datetime_def valid_date_def)
  have d1: "28 \<le> days_in_month (year now) (month now + 1)" if "month now < 12"
    using that m by (intro days_in_month_ge) simp_all
  have d2: "28 \<le> days_in_month (year now + 1) 1"
    by (intro days_in_month_ge) simp_all
  show ?thesis
  proof (cases "month now < 12")
    case True
    with r m y1 y d1 show ?thesis
      by (simp add: calculate_next_run_def calculate_next_run_try_def f t Let_def mk_datetime_def
          valid_datetime_def valid_date_def at_time_def)
  next
    case False
    with r m y1 y d2 show ?thesis
      by (simp add: calculate_next_run_def calculate_next_run_try_def f t Let_def mk_datetime_def
          valid_datetime_def valid_date_def at_time_def)
  qed
qed

lemma try_failed_next_run:
  "calculate_next_run_try task now = Inl e \<Longrightarrow> calculate_next_run task now = dt_add now 0 300"
  by (simp add: calculate_next_run_def)


section \<open>The trigger strategy\<close>

text \<open>At a valid instant before the last representable year the next run exists and lies after it.\<close>

lemma next_run_exists_after:
  assumes v: "valid_datetime now" and y: "year now < MAXYEAR"
  shows "\<exists>r. calculate_next_run task now = Inr r \<and> dt_lt now r"
proof -
  note fb = fallback_next_run [OF v y, of 300, simplified]
  have failed: ?thesis if "calculate_next_run_try task now = Inl e" for e
    using fb try_failed_next_run [OF that] by simp
  show ?thesis
  proof (cases "frequency task")
    case HOURLY
    from fallback_next_run [OF v y, of 3600] show ?thesis
      by (auto simp add: calculate_next_run_def calculate_next_run_try_def HOURLY)
  next
    case DAILY
    show ?thesis
    proof (cases "strptime_HM (schedule_time task)")
      case (Inl e)
      then show ?thesis
        by (intro failed [of e]) (simp add: calculate_next_run_try_def DAILY)
    next
      case (Inr t)
      have "add_days (date_of now) 1 = next_day (date_of now)"
        using add_days_Suc [of 0 "date_of now"] by (simp add: add_days_0)
      then have "dt_lt now (at_time (next_day (date_of now)) t)"
        using after_date [of 1 now t] by simp
      then show ?thesis
        by (simp add: daily_rule_eq [OF DAILY Inr v y])
    qed
  next
    case WEEKLY
    show ?thesis
    proof (cases "strptime_HM (schedule_time task)")
      case (Inl e)
      then show ?thesis
        by (intro failed [of e]) (simp add: calculate_next_run_try_def WEEKLY)
    next
      case (Inr t)
      have "1 \<le> 7 - weekday now" using weekday_range [of now] by simp
      then show ?thesis
        by (simp add: weekly_rule_eq [OF WEEKLY Inr v y] after_date)
    qed
  next
    case MONTHLY
    show ?thesis
    proof (cases "strptime_HM (schedule_time task)")
      case (Inl e)
      then show ?thesis
        by (intro failed [of e]) (simp add: calculate_next_run_try_def MONTHLY)
    next
      case (Inr t)
      have "dt_lt now (at_time (if month now < 12 then (year now, month now + 1, 1)
                                else (year now + 1, 1, 1)) t)"
        by (intro dt_lt_by_date) (simp add: date_key_def date_of_def at_time_def)
      then show ?thesis
        by (simp add: monthly_rule_eq [OF MONTHLY Inr v y])
    qed
  next
    case CUSTOM
    from fb show ?thesis
      by (auto simp add: calculate_next_run_def calculate_next_run_try_def CUSTOM)
  qed
qed

text \<open>
  Claim C1: for every frequency kind and every schedule-spec, the next run computed at
  a valid instant \<open>now\<close> before the last representable year exists and is strictly
  greater than \<open>now\<close>. (In year 9999 the addition itself can raise
  \<^verbatim>\<open>OverflowError\<close>.)
\<close>

theorem next_run_strictly_after_now:
  assumes "valid_datetime now" and "year now < MAXYEAR"
  shows "\<exists>r. calculate_next_run task now = Inr r \<and> dt_lt now r"
  using assms by (rule next_run_exists_after)

theorem next_run_strictly_after_now_witness:
  "valid_datetime (instant 2024 3 1 10 15 0) \<and> year (instant 2024 3 1 10 15 0) < MAXYEAR
   \<and> calculate_next_run hourly_collection (instant 2024 3 1 10 15 0) = Inr (instant 2024 3 1 11 15 0)
   \<and> dt_lt (instant 2024 3 1 10 15 0) (instant 2024 3 1 11 15 0)"
proof -
  have v: "valid_datetime (instant 2024 3 1 10 15 0)" by code_simp
  have y: "year (instant 2024 3 1 10 15 0) < MAXYEAR" by code_simp
  have e: "calculate_next_run hourly_collection (instant 2024 3 1 10 15 0) = Inr (instant 2024 3 1 11 15 0)"
    by code_simp
  from next_run_strictly_after_now [OF v y, of hourly_collection] e
  have "dt_lt (instant 2024 3 1 10 15 0) (instant 2024 3 1 11 15 0)" by simp
  with v y e show ?thesis by simp
qed











text \<open>Adding \<open>k\<close> days moves the weekday by \<open>k\<close>.\<close>

lemma weekday_add_days:
  assumes "md_ok (date_of now)" "0 \<le> k"
  shows "weekday (at_time (add_days (date_of now) k) t) = (weekday now + k) mod 7"
proof -
  have "toordinal (at_time (add_days (date_of now) k) t) = toordinal now + k"
    using ymd_ord_add_days [OF assms(2,1)] by (simp add: toordinal_date_of date_of_at_time)
  then show ?thesis
    by (simp add: weekday_def mod_simps algebra_simps)
qed

lemma weekday_next_monday:
  assumes "md_ok (date_of now)"
  shows "weekday (at_time (add_days (date_of now) (7 - weekday now)) t) = 0"
proof -
  have "0 \<le> 7 - weekday now" using weekday_range [of now] by simp
  from weekday_add_days [OF assms this] show ?thesis by simp
qed

text \<open>
  Claim C5, as amended. The task record stores no anchor weekday: the weekly rule of the
  code always aims at a Monday. For a WEEKLY task whose schedule-spec parses as a time
  of day, and any \<open>now\<close> that is not a Monday before that time of day, the next run
  is what the specified rule gives for the anchor Monday: the time of day on the first
  Monday on which it is strictly after \<open>now\<close>.
\<close>

theorem weekly_next_run_monday:
  assumes f: "frequency task = WEEKLY" and t: "strptime_HM (schedule_time task) = Inr t"
    and v: "valid_datetime now" and y: "year now < MAXYEAR"
    and ns: "\<not> (weekday now = 0 \<and> dt_lt now (combine now t))"
  shows "\<exists>r. calculate_next_run task now = Inr r \<and> weekly_as_specified 0 t now = Inr r
             \<and> weekday r = 0 \<and> dt_lt now r"
proof -
  define r where "r = at_time (add_days (date_of now) (7 - weekday now)) t"
  have code: "calculate_next_run task now = Inr r"
    unfolding r_def by (rule weekly_rule_eq [OF f t v y])
  from v have ok: "md_ok (date_of now)"
    by (simp add: valid_datetime_def valid_date_def md_ok_def date_of_def)
  have mon: "weekday r = 0" unfolding r_def by (rule weekday_next_monday [OF ok])
  have wr: "0 \<le> weekday now" "weekday now < 7" using weekday_range [of now] by simp_all
  then have after: "dt_lt now r" unfolding r_def by (intro after_date) simp
  have spec: "weekly_as_specified 0 t now = Inr r"
  proof (cases "weekday now = 0")
    case True
    with ns have not_after: "\<not> dt_lt now (combine now t)" by simp
    have c0: "dt_add (combine now t) 0 0 = Inr (combine now t)"
      using add_days_combine [OF v y t, of 0] by (simp add: add_days_0 combine_at_time)
    have c7: "dt_add (combine now t) 7 0 = Inr r"
      using add_days_combine [OF v y t, of 7] True by (simp add: r_def)
    show ?thesis
      by (simp add: weekly_as_specified_def True c0 not_after c7)
  next
    case False
    with wr have k: "(0 - weekday now) mod 7 = 7 - weekday now"
      by (intro int_mod_pos_eq [where q = "-1"]) simp_all
    have "0 \<le> 7 - weekday now" "7 - weekday now \<le> 7" using wr by simp_all
    from add_days_combine [OF v y t this]
    have c: "dt_add (combine now t) (7 - weekday now) 0 = Inr r" by (simp add: r_def)
    show ?thesis
      using after by (simp add: weekly_as_specified_def k c del: diff_0)
  qed
  from code spec mon after show ?thesis by blast
qed

theorem weekly_next_run_monday_witness:
  "frequency weekly_cleanup = WEEKLY \<and> strptime_HM (schedule_time weekly_cleanup) = Inr (4, 0)
   \<and> valid_datetime (instant 2024 1 3 3 0 0) \<and> year (instant 2024 1 3 3 0 0) < MAXYEAR
   \<and> weekday (instant 2024 1 3 3 0 0) = 2
   \<and> calculate_next_run weekly_cleanup (instant 2024 1 3 3 0 0) = Inr (instant 2024 1 8 4 0 0)
   \<and> weekly_as_specified 0 (4, 0) (instant 2024 1 3 3 0 0) = Inr (instant 2024 1 8 4 0 0)
   \<and> weekday (instant 2024 1 8 4 0 0) = 0"
proof -
  have f: "frequency weekly_cleanup = WEEKLY" by code_simp
  have t: "strptime_HM (schedule_time weekly_cleanup) = Inr (4, 0)" by code_simp
  have v: "valid_datetime (instant 2024 1 3 3 0 0)" by code_simp
  have y: "year (instant 2024 1 3 3 0 0) < MAXYEAR" by code_simp
  have w: "weekday (instant 2024 1 3 3 0 0) = 2" by code_simp
  then have ns: "\<not> (weekday (instant 2024 1 3 3 0 0) = 0
                 \<and> dt_lt (instant 2024 1 3 3 0 0) (combine (instant 2024 1 3 3 0 0) (4, 0)))"
    by simp
  have e: "calculate_next_run weekly_cleanup (instant 2024 1 3 3 0 0) = Inr (instant 2024 1 8 4 0 0)"
    by code_simp
  from weekly_next_run_monday [OF f t v y ns] e
  have "weekly_as_specified 0 (4, 0) (instant 2024 1 3 3 0 0) = Inr (instant 2024 1 8 4 0 0)
        \<and> weekday (instant 2024 1 8 4 0 0) = 0"
    by auto
  with f t v y w e show ?thesis by simp
qed

text \<open>
  Claim C5 as stated fails, whatever weekday the anchor is: on Monday 2024-01-01 at 03:00,
  for the default task \<^verbatim>\<open>weekly_cleanup\<close> (spec \<^verbatim>\<open>"04:00"\<close>), the
  specified rule gives 04:00 on one of the days 2024-01-01 .. 2024-01-07, according to
  the anchor, and the code returns 2024-01-08T04:00:00.
\<close>

theorem weekly_anchor_counterexample:
  "weekday (instant 2024 1 1 3 0 0) = 0
   \<and> calculate_next_run weekly_cleanup (instant 2024 1 1 3 0 0) = Inr (instant 2024 1 8 4 0 0)
   \<and> weekly_as_specified 0 (4, 0) (instant 2024 1 1 3 0 0) = Inr (instant 2024 1 1 4 0 0)
   \<and> weekly_as_specified 1 (4, 0) (instant 2024 1 1 3 0 0) = Inr (instant 2024 1 2 4 0 0)
   \<and> weekly_as_specified 2 (4, 0) (instant 2024 1 1 3 0 0) = Inr (instant 2024 1 3 4 0 0)
   \<and> weekly_as_specified 3 (4, 0) (instant 2024 1 1 3 0 0) = Inr (instant 2024 1 4 4 0 0)
   \<and> weekly_as_specified 4 (4, 0) (instant 2024 1 1 3 0 0) = Inr (instant 2024 1 5 4 0 0)
   \<and> weekly_as_specified 5 (4, 0) (instant 2024 1 1 3 0 0) = Inr (instant 2024 1 6 4 0 0)
   \<and> weekly_as_specified 6 (4, 0) (instant 2024 1 1 3 0 0) = Inr (instant 2024 1 7 4 0 0)"
  by code_simp


subsection \<open>Validation and registration\<close>






lemma scheduled_tasks_add_to_scheduler [simp]:
  "scheduled_tasks (add_to_scheduler s task) = scheduled_tasks s"
  by (simp add: add_to_scheduler_def Let_def)






text \<open>
  What \<^verbatim>\<open>int()\<close> reads: the limit of 4300 digits counts leading zeros; the
  characters 0x1C to 0x1F are no blanks; blanks around a part, a sign and single
  underscores between digits are read.
\<close>

lemma py_digits_zeros: "py_digits (replicate n CHR ''0'' @ s) 0 = py_digits s 0"
  by (induction n) (simp_all add: is_digit_def digit_val_def)

lemma py_int_zeros_one:
  "py_int (replicate n CHR ''0'' @ ''1'') = (if int n + 1 > MAX_STR_DIGITS then None else Some 1)"
proof -
  let ?s = "replicate n CHR ''0'' @ ''1''"
  have d: "\<forall>c\<in>set ?s. is_digit c" by (auto simp add: is_digit_def)
  then have st: "py_strip ?s = ?s" by (rule py_strip_digits)
  have f: "filter is_digit ?s = ?s" using d by (intro filter_True) blast
  have u: "py_unsigned ?s = (if int n + 1 > MAX_STR_DIGITS then None else Some 1)"
  proof (cases n)
    case 0
    then show ?thesis
      by (simp add: py_unsigned_def MAX_STR_DIGITS_def is_digit_def digit_val_def)
  next
    case (Suc k)
    have "py_digits ?s 0 = Some 1"
      unfolding py_digits_zeros by (simp add: is_digit_def digit_val_def)
    moreover have "?s = CHR ''0'' # replicate k CHR ''0'' @ ''1''" using Suc by simp
    moreover have "length (filter is_digit ?s) = n + 1" unfolding f by simp
    ultimately show ?thesis
      unfolding py_unsigned_def by (simp add: is_digit_def)
  qed
  have "?s \<noteq> []" by simp
  then obtain c cs where cs: "?s = c # cs" by (cases ?s) simp_all
  then have "is_digit c" using d by (metis list.set_intros(1))
  then have "c \<noteq> CHR ''+''" "c \<noteq> CHR ''-''" by (auto simp add: is_digit_def)
  then show ?thesis
    unfolding py_int_def st using cs u by simp
qed

lemma validate_zeros:
  "validate_schedule_time (replicate n CHR ''0'' @ ''1:00'') DAILY \<longleftrightarrow> int n + 1 \<le> MAX_STR_DIGITS"
proof -
  let ?a = "replicate n CHR ''0'' @ ''1''"
  have "replicate n CHR ''0'' @ ''1:00'' = ?a @ CHR '':'' # ''00''" by simp
  moreover have "CHR '':'' \<notin> set ?a" "CHR '':'' \<notin> set ''00''" by auto
  ultimately have sp: "split_on CHR '':'' (replicate n CHR ''0'' @ ''1:00'') = [?a, ''00'']"
    unfolding split_on_two by blast
  have m: "py_int ''00'' = Some 0" by code_simp
  have c: "CHR '':'' \<in> set (replicate n CHR ''0'' @ ''1:00'')" by simp
  show ?thesis
    unfolding validate_schedule_time_def sp using c
    by (simp add: py_int_zeros_one m del: replicate.simps append.simps)
qed

lemma int_reading_examples:
  "\<not> validate_schedule_time (CHR 0x1C # ''6:30'') DAILY
   \<and> \<not> validate_schedule_time (''9:30'' @ [CHR 0x1F]) DAILY
   \<and> validate_schedule_time ''02:00 '' DAILY
   \<and> validate_schedule_time '' 2 :+5'' DAILY
   \<and> validate_schedule_time ''1_0:3_0'' DAILY
   \<and> \<not> validate_schedule_time ''24:00'' DAILY
   \<and> \<not> validate_schedule_time ''-1:00'' DAILY
   \<and> \<not> validate_schedule_time ''1:2:3'' DAILY
   \<and> validate_schedule_time (replicate 4299 CHR ''0'' @ ''1:00'') DAILY
   \<and> \<not> validate_schedule_time (replicate 4300 CHR ''0'' @ ''1:00'') DAILY"
proof -
  have "\<not> validate_schedule_time (CHR 0x1C # ''6:30'') DAILY" by code_simp
  moreover have "\<not> validate_schedule_time (''9:30'' @ [CHR 0x1F]) DAILY" by code_simp
  moreover have "validate_schedule_time ''02:00 '' DAILY" by code_simp
  moreover have "validate_schedule_time '' 2 :+5'' DAILY" by code_simp
  moreover have "validate_schedule_time ''1_0:3_0'' DAILY" by code_simp
  moreover have "\<not> validate_schedule_time ''24:00'' DAILY" by code_simp
  moreover have "\<not> validate_schedule_time ''-1:00'' DAILY" by code_simp
  moreover have "\<not> validate_schedule_time ''1:2:3'' DAILY" by code_simp
  moreover have "validate_schedule_time (replicate 4299 CHR ''0'' @ ''1:00'') DAILY"
    unfolding validate_zeros by (simp add: MAX_STR_DIGITS_def)
  moreover have "\<not> validate_schedule_time (replicate 4300 CHR ''0'' @ ''1:00'') DAILY"
    unfolding validate_zeros by (simp add: MAX_STR_DIGITS_def)
  ultimately show ?thesis by blast
qed





subsection \<open>Firing a task and running it now\<close>

lemma run_task_handler_cong:
  "task_type a = task_type b \<Longrightarrow> config a = config b \<Longrightarrow> callback a = callback b \<Longrightarrow>
   run_task_handler s a = run_task_handler s b"
  by (simp add: run_task_handler_def split: option.splits)

lemma calculate_next_run_cong:
  "frequency a = frequency b \<Longrightarrow> schedule_time a = schedule_time b \<Longrightarrow>
   calculate_next_run a now = calculate_next_run b now"
  by (simp add: calculate_next_run_def calculate_next_run_try_def)

lemma execute_task_fired:
  assumes t: "map_of (scheduled_tasks s) tid = Some task" and a: "is_active task"
    and r: "calculate_next_run task now = Inr r"
  shows "map_of (scheduled_tasks (execute_task s tid now)) tid =
           Some (if run_task_handler s task
                 then task\<lparr>last_run := Some now, total_runs := total_runs task + 1,
                            success_count := success_count task + 1, next_run := Some r\<rparr>
                 else task\<lparr>last_run := Some now, total_runs := total_runs task + 1,
                            fail_count := fail_count task + 1, next_run := Some r\<rparr>)"
proof -
  let ?task1 = "task\<lparr>last_run := Some now, total_runs := total_runs task + 1\<rparr>"
  have h: "run_task_handler s ?task1 = run_task_handler s task"
    by (rule run_task_handler_cong) simp_all
  have c1: "calculate_next_run (?task1\<lparr>success_count := success_count ?task1 + 1\<rparr>) now = Inr r"
    using r calculate_next_run_cong [of "?task1\<lparr>success_count := success_count ?task1 + 1\<rparr>" task now]
    by simp
  have c2: "calculate_next_run (?task1\<lparr>fail_count := fail_count ?task1 + 1\<rparr>) now = Inr r"
    using r calculate_next_run_cong [of "?task1\<lparr>fail_count := fail_count ?task1 + 1\<rparr>" task now]
    by simp
  show ?thesis
  proof (cases "run_task_handler s task")
    case True
    then show ?thesis
      using t a h c1 by (simp add: execute_task_def Let_def update_conv')
  next
    case False
    then show ?thesis
      using t a h c2 by (simp add: execute_task_def Let_def update_conv')
  qed
qed

lemma execute_task_counters_ok:
  assumes "map_of (scheduled_tasks s) tid = Some task" "is_active task"
    and "calculate_next_run task now = Inr r" and "counters_ok task"
  shows "\<exists>task'. map_of (scheduled_tasks (execute_task s tid now)) tid = Some task' \<and> counters_ok task'"
  using execute_task_fired [OF assms(1-3)] assms(4)
  by (auto simp add: counters_ok_def)

lemma run_task_now_effect:
  assumes "map_of (scheduled_tasks s) tid = Some task"
  shows "run_task_now s tid =
           (run_task_handler s task,
            s\<lparr>scheduled_tasks := AList.update tid
                 (if run_task_handler s task then task\<lparr>success_count := success_count task + 1\<rparr>
                  else task\<lparr>fail_count := fail_count task + 1\<rparr>) (scheduled_tasks s)\<rparr>)"
  using assms by (simp add: run_task_now_def Let_def)

lemma run_task_now_keeps_timer:
  assumes "map_of (scheduled_tasks s) tid = Some task"
  shows "jobs (snd (run_task_now s tid)) = jobs s"
    and "map_option next_run (map_of (scheduled_tasks (snd (run_task_now s tid))) tid) = Some (next_run task)"
    and "map_option total_runs (map_of (scheduled_tasks (snd (run_task_now s tid))) tid) = Some (total_runs task)"
  using assms by (simp_all add: run_task_now_effect update_conv')

text \<open>
  Claim C2 fails on \<^verbatim>\<open>run_task_now\<close>: it adds one to the success or the failure
  counter and leaves \<^verbatim>\<open>total_runs\<close> as it is. After the start of the scheduler on
  2024-01-01 at 03:00, running the default task \<^verbatim>\<open>daily_backup\<close> at once gives
  one success out of zero runs.
\<close>

theorem run_task_now_breaks_counters:
  "map_option counters_ok
     (map_of (scheduled_tasks (add_default_tasks (init_scheduler False accept_all) (instant 2024 1 1 3 0 0)))
        ''daily_backup'') = Some True
   \<and> fst (run_task_now (add_default_tasks (init_scheduler False accept_all) (instant 2024 1 1 3 0 0))
        ''daily_backup'')
   \<and> map_option success_count
        (map_of (scheduled_tasks (snd (run_task_now
           (add_default_tasks (init_scheduler False accept_all) (instant 2024 1 1 3 0 0))
           ''daily_backup''))) ''daily_backup'') = Some 1
   \<and> map_option fail_count
        (map_of (scheduled_tasks (snd (run_task_now
           (add_default_tasks (init_scheduler False accept_all) (instant 2024 1 1 3 0 0))
           ''daily_backup''))) ''daily_backup'') = Some 0
   \<and> map_option total_runs
        (map_of (scheduled_tasks (snd (run_task_now
           (add_default_tasks (init_scheduler False accept_all) (instant 2024 1 1 3 0 0))
           ''daily_backup''))) ''daily_backup'') = Some 0
   \<and> map_option counters_ok
        (map_of (scheduled_tasks (snd (run_task_now
           (add_default_tasks (init_scheduler False accept_all) (instant 2024 1 1 3 0 0))
           ''daily_backup''))) ''daily_backup'') = Some False"
  by code_simp

text \<open>
  Claim C3: when a timer fires an active task at a valid instant before the last
  representable year, the task's \<^verbatim>\<open>next_run\<close> afterwards is the freshly computed
  one, strictly after \<open>now\<close>, whether the handler succeeded or failed (returned
  \<^verbatim>\<open>False\<close>, raised, or was not found); the run is counted as a success or as a
  failure accordingly.
\<close>

theorem execute_task_recomputes_next_run:
  assumes "map_of (scheduled_tasks s) tid = Some task" and "is_active task"
    and "valid_datetime now" and "year now < MAXYEAR"
  shows "\<exists>task' r. map_of (scheduled_tasks (execute_task s tid now)) tid = Some task'
           \<and> calculate_next_run task now = Inr r \<and> next_run task' = Some r \<and> dt_lt now r
           \<and> last_run task' = Some now \<and> total_runs task' = total_runs task + 1
           \<and> (run_task_handler s task \<longrightarrow>
                 success_count task' = success_count task + 1 \<and> fail_count task' = fail_count task)
           \<and> (\<not> run_task_handler s task \<longrightarrow>
                 success_count task' = success_count task \<and> fail_count task' = fail_count task + 1)"
proof -
  from next_run_exists_after [OF assms(3,4), of task]
  obtain r where r: "calculate_next_run task now = Inr r" and after: "dt_lt now r" by blast
  from execute_task_fired [OF assms(1,2) r] r after show ?thesis
    by (cases "run_task_handler s task") simp_all
qed

theorem execute_task_recomputes_next_run_witness:
  "map_of (scheduled_tasks (scheduler_with failing_handlers [daily_backup])) ''daily_backup''
     = Some daily_backup
   \<and> is_active daily_backup
   \<and> valid_datetime (instant 2024 1 1 3 0 0) \<and> year (instant 2024 1 1 3 0 0) < MAXYEAR
   \<and> \<not> run_task_handler (scheduler_with failing_handlers [daily_backup]) daily_backup
   \<and> (\<exists>task'. map_of (scheduled_tasks
                  (execute_task (scheduler_with failing_handlers [daily_backup]) ''daily_backup''
                     (instant 2024 1 1 3 0 0))) ''daily_backup'' = Some task'
          \<and> next_run task' = Some (instant 2024 1 2 2 0 0)
          \<and> success_count task' = 0 \<and> fail_count task' = 1 \<and> total_runs task' = 1)"
proof -
  have t: "map_of (scheduled_tasks (scheduler_with failing_handlers [daily_backup])) ''daily_backup''
             = Some daily_backup"
    by (simp add: scheduler_with_def daily_backup_def new_task_def)
  have a: "is_active daily_backup" by (simp add: daily_backup_def new_task_def)
  have v: "valid_datetime (instant 2024 1 1 3 0 0)" by code_simp
  have y: "year (instant 2024 1 1 3 0 0) < MAXYEAR" by code_simp
  have h: "\<not> run_task_handler (scheduler_with failing_handlers [daily_backup]) daily_backup"
    by (simp add: run_task_handler_def scheduler_with_def failing_handlers_def)
  have c: "calculate_next_run daily_backup (instant 2024 1 1 3 0 0) = Inr (instant 2024 1 2 2 0 0)"
    by code_simp
  have z: "success_count daily_backup = 0" "fail_count daily_backup = 0" "total_runs daily_backup = 0"
    by (simp_all add: daily_backup_def new_task_def)
  from execute_task_recomputes_next_run [OF t a v y] h c z
  have "\<exists>task'. map_of (scheduled_tasks
                  (execute_task (scheduler_with failing_handlers [daily_backup]) ''daily_backup''
                     (instant 2024 1 1 3 0 0))) ''daily_backup'' = Some task'
          \<and> next_run task' = Some (instant 2024 1 2 2 0 0)
          \<and> success_count task' = 0 \<and> fail_count task' = 1 \<and> total_runs task' = 1"
    by auto
  with t a v y h show ?thesis by blast
qed


subsection \<open>Statistics\<close>

lemma success_rate_of_total:
  "\<exists>q. success_rate_of successes runs = Inr q \<and> (runs \<le> 0 \<longrightarrow> q = 0)"
  by (simp add: success_rate_of_def py_truediv_def)

lemma summary_total:
  "\<exists>x. summary task = Inr x \<and> s_total_runs x = total_runs task
        \<and> (total_runs task \<le> 0 \<longrightarrow> s_success_rate x = 0)"
proof -
  from success_rate_of_total [of "success_count task" "total_runs task"]
  obtain q where "success_rate_of (success_count task) (total_runs task) = Inr q"
    and "total_runs task \<le> 0 \<longrightarrow> q = 0" by blast
  then show ?thesis by (simp add: summary_def)
qed

lemma summaries_total:
  "\<exists>xs. summaries tasks = Inr xs \<and> (\<forall>x\<in>set xs. s_total_runs x \<le> 0 \<longrightarrow> s_success_rate x = 0)"
proof (induction tasks)
  case Nil
  show ?case by simp
next
  case (Cons task tasks)
  from summary_total [of task] obtain x where
    x: "summary task = Inr x" "s_total_runs x = total_runs task"
       "total_runs task \<le> 0 \<longrightarrow> s_success_rate x = 0" by blast
  from Cons obtain xs where
    xs: "summaries tasks = Inr xs" "\<forall>x\<in>set xs. s_total_runs x \<le> 0 \<longrightarrow> s_success_rate x = 0" by blast
  from x xs show ?case by simp
qed

lemma get_tasks_total:
  "\<exists>xs. get_tasks s active_only = Inr xs
        \<and> (\<forall>x\<in>set xs. s_total_runs x \<le> 0 \<longrightarrow> s_success_rate x = 0)"
proof -
  from summaries_total
    [of "filter (\<lambda>task. \<not> (active_only \<and> \<not> is_active task)) (map snd (scheduled_tasks s))"]
  obtain xs where "summaries (filter (\<lambda>task. \<not> (active_only \<and> \<not> is_active task))
      (map snd (scheduled_tasks s))) = Inr xs"
    and "\<forall>x\<in>set xs. s_total_runs x \<le> 0 \<longrightarrow> s_success_rate x = 0" by blast
  then show ?thesis by (simp add: get_tasks_def)
qed

lemma get_scheduler_stats_total:
  "get_scheduler_stats s now \<noteq> Inl ZeroDivisionError
   \<and> (\<forall>st. get_scheduler_stats s now = Inr st \<longrightarrow> st_total_runs st \<le> 0 \<longrightarrow> st_success_rate st = 0)
   \<and> (\<forall>one_hour_later. dt_add now 0 3600 = Inr one_hour_later \<longrightarrow>
         (\<exists>st. get_scheduler_stats s now = Inr st))"
proof -
  from success_rate_of_total [of "sum_list (map success_count (map snd (scheduled_tasks s)))"
      "sum_list (map total_runs (map snd (scheduled_tasks s)))"]
  obtain q where q: "success_rate_of (sum_list (map success_count (map snd (scheduled_tasks s))))
      (sum_list (map total_runs (map snd (scheduled_tasks s)))) = Inr q"
    and z: "sum_list (map total_runs (map snd (scheduled_tasks s))) \<le> 0 \<longrightarrow> q = 0" by blast
  have e: "dt_add now 0 3600 \<noteq> Inl ZeroDivisionError"
    by (simp add: dt_add_unfold)
  show ?thesis
    using q z e
    by (cases "dt_add now 0 3600") (auto simp add: get_scheduler_stats_def Let_def)
qed

text \<open>
  Claim C10: \<^verbatim>\<open>get_tasks\<close> and \<^verbatim>\<open>get_scheduler_stats\<close> never divide by zero.
  \<^verbatim>\<open>get_tasks\<close> always returns its list, and a summary whose \<^verbatim>\<open>total_runs\<close> is
  zero (or less) has the success rate 0; \<^verbatim>\<open>get_scheduler_stats\<close> never raises
  \<^verbatim>\<open>ZeroDivisionError\<close>, and its success rate is 0 when the sum of the runs is zero.
\<close>

theorem success_rate_guarded:
  "(\<exists>xs. get_tasks s active_only = Inr xs
        \<and> (\<forall>x\<in>set xs. s_total_runs x \<le> 0 \<longrightarrow> s_success_rate x = 0))
   \<and> get_scheduler_stats s now \<noteq> Inl ZeroDivisionError
   \<and> (\<forall>st. get_scheduler_stats s now = Inr st \<longrightarrow> st_total_runs st \<le> 0 \<longrightarrow> st_success_rate st = 0)"
  using get_tasks_total [of s active_only] get_scheduler_stats_total [of s now] by blast

theorem success_rate_guarded_witness:
  "map s_total_runs (projr (get_tasks (scheduler_with register_default_handlers [daily_backup]) False)) = [0]
   \<and> map s_success_rate (projr (get_tasks (scheduler_with register_default_handlers [daily_backup]) False)) = [0]
   \<and> map_sum id st_total_runs
        (get_scheduler_stats (scheduler_with register_default_handlers [daily_backup]) (instant 2024 1 1 3 0 0))
       = Inr 0
   \<and> map_sum id st_success_rate
        (get_scheduler_stats (scheduler_with register_default_handlers [daily_backup]) (instant 2024 1 1 3 0 0))
       = Inr 0"
proof -
  let ?s = "scheduler_with register_default_handlers [daily_backup]"
  let ?now = "instant 2024 1 1 3 0 0"
  from success_rate_guarded [of ?s False ?now]
  obtain xs where xs: "get_tasks ?s False = Inr xs"
    and rate: "\<forall>x\<in>set xs. s_total_runs x \<le> 0 \<longrightarrow> s_success_rate x = 0"
    and stats: "\<forall>st. get_scheduler_stats ?s ?now = Inr st \<longrightarrow> st_total_runs st \<le> 0 \<longrightarrow> st_success_rate st = 0"
    by blast
  have runs: "map s_total_runs (projr (get_tasks ?s False)) = [0]" by code_simp
  then have "map s_success_rate xs = [0]" using rate xs by (auto simp add: map_eq_Cons_conv)
  moreover have r: "map_sum id st_total_runs (get_scheduler_stats ?s ?now) = Inr 0" by code_simp
  then have "map_sum id st_success_rate (get_scheduler_stats ?s ?now) = Inr 0"
    using stats by (cases "get_scheduler_stats ?s ?now") auto
  ultimately show ?thesis using runs r xs by simp
qed


section \<open>The collector\<close>

subsection \<open>What a pass leaves alone\<close>

lemma process_links_frame:
  "snd (process_links w gid gname msg links acc) =
     (snd acc)\<lparr>db := db (snd (process_links w gid gname msg links acc)),
               collected_urls := collected_urls (snd (process_links w gid gname msg links acc))\<rparr>"
proof (induction w gid gname msg links acc rule: process_links.induct)
  case (1 w gid gname msg acc)
  show ?case by simp
next
  case (2 w gid gname msg link links n c)
  show ?case
  proof (cases "link \<in> collected_urls c")
    case True
    with 2 show ?thesis by simp
  next
    case new: False
    show ?thesis
    proof (cases "categorize_link w link")
      case Raises
      with new show ?thesis by simp
    next
      case cat: (Returns category)
      show ?thesis
      proof (cases "db c")
        case None
        with 2 new cat show ?thesis by simp
      next
        case gw: (Some gw)
        obtain r gw' where sv: "save_link gw (link_record c gid gname msg link category) = (r, gw')"
          by (cases "save_link gw (link_record c gid gname msg link category)")
        show ?thesis
        proof (cases r)
          case Raises
          with new cat gw sv show ?thesis by simp
        next
          case (Returns success)
          show ?thesis
          proof (cases success)
            case True
            from "2.IH"(3) [OF new cat gw sv [symmetric] Returns True] new cat gw sv Returns True
            show ?thesis by simp
          next
            case False
            from "2.IH"(4) [OF new cat gw sv [symmetric] Returns False] new cat gw sv Returns False
            show ?thesis by simp
          qed
        qed
      qed
    qed
  qed
qed


lemma only_gateway_and_urls_refl: "only_gateway_and_urls c c"
  by (simp add: only_gateway_and_urls_def)

lemma only_gateway_and_urls_trans:
  "only_gateway_and_urls a b \<Longrightarrow> only_gateway_and_urls b c \<Longrightarrow> only_gateway_and_urls a c"
  by (cases a; cases b; cases c) (simp add: only_gateway_and_urls_def)

lemma process_links_only:
  "only_gateway_and_urls (snd acc) (snd (process_links w gid gname msg links acc))"
  unfolding only_gateway_and_urls_def by (rule process_links_frame)

lemma process_messages_only:
  "only_gateway_and_urls (snd acc) (snd (process_messages w gid gname msgs acc))"
proof (induction w gid gname msgs acc rule: process_messages.induct)
  case (1 w gid gname acc)
  show ?case by (simp add: only_gateway_and_urls_refl)
next
  case (2 w gid gname msg msgs acc)
  show ?case
  proof (cases "body msg = []")
    case True
    with 2 show ?thesis by simp
  next
    case False
    show ?thesis
    proof (cases "extract_links w (body msg)")
      case Raises
      with 2 False show ?thesis by simp
    next
      case (Returns all_links)
      from "2.IH"(2) [OF False Returns] process_links_only [of acc w gid gname msg all_links]
      show ?thesis
        using False Returns by (auto intro: only_gateway_and_urls_trans)
    qed
  qed
qed

lemma process_group_messages_only:
  "only_gateway_and_urls c (snd (process_group_messages w c messages gid gname))"
  using process_messages_only [of "(0, c)" w gid gname messages]
  by (simp add: process_group_messages_def)

lemma only_gateway_and_urls_fields:
  assumes "only_gateway_and_urls c c'"
  shows "is_collecting c' = is_collecting c" "collections_today c' = collections_today c"
    "last_collection_date c' = last_collection_date c" "last_group_check c' = last_group_check c"
    "total_links c' = total_links c" "client_session_id c' = client_session_id c"
proof -
  from assms have e: "c' = c\<lparr>db := db c', collected_urls := collected_urls c'\<rparr>"
    by (simp add: only_gateway_and_urls_def)
  show "is_collecting c' = is_collecting c" by (subst e) simp
  show "collections_today c' = collections_today c" by (subst e) simp
  show "last_collection_date c' = last_collection_date c" by (subst e) simp
  show "last_group_check c' = last_group_check c" by (subst e) simp
  show "total_links c' = total_links c" by (subst e) simp
  show "client_session_id c' = client_session_id c" by (subst e) simp
qed


subsection \<open>The loop over the groups\<close>

lemma collect_groups_step:
  assumes "is_collecting c"
  shows "collect_groups w now (g # gs) (n, c) =
     (if checked_recently c (group_id g) now then collect_groups w now gs (n, c)
      else
        (case get_group_messages w (group_id g) of
           Raises \<Rightarrow> collect_groups w now gs (n, c)
         | Returns messages \<Rightarrow>
             collect_groups w now gs
               (n + fst (process_group_messages w c messages (group_id g) (group_name g)),
                (snd (process_group_messages w c messages (group_id g) (group_name g)))
                  \<lparr>last_group_check :=
                     (last_group_check (snd (process_group_messages w c messages (group_id g) (group_name g))))
                       (group_id g := Some now)\<rparr>)))"
  using assms by (simp split: outcome.splits prod.splits)

lemma collect_groups_stopped:
  "\<not> is_collecting c \<Longrightarrow> collect_groups w now gs (n, c) = (n, c)"
  by (cases gs) simp_all

lemma processed_fields:
  "is_collecting (snd (process_group_messages w c messages gid gname)) = is_collecting c"
  "collections_today (snd (process_group_messages w c messages gid gname)) = collections_today c"
  "last_collection_date (snd (process_group_messages w c messages gid gname)) = last_collection_date c"
  "last_group_check (snd (process_group_messages w c messages gid gname)) = last_group_check c"
  using only_gateway_and_urls_fields [OF process_group_messages_only [of c w messages gid gname]]
  by simp_all

lemma collect_groups_fields:
  "is_collecting (snd (collect_groups w now gs (n, c))) = is_collecting c
   \<and> collections_today (snd (collect_groups w now gs (n, c))) = collections_today c
   \<and> last_collection_date (snd (collect_groups w now gs (n, c))) = last_collection_date c"
proof (induction gs arbitrary: n c)
  case Nil
  show ?case by simp
next
  case (Cons g gs)
  show ?case
  proof (cases "is_collecting c")
    case False
    then show ?thesis by (simp add: collect_groups_stopped)
  next
    case True
    show ?thesis
      unfolding collect_groups_step [OF True]
      by (simp add: Cons.IH processed_fields split: outcome.splits)
  qed
qed

lemma collect_groups_stamp:
  "last_group_check (snd (collect_groups w now gs (n, c))) gid = last_group_check c gid
   \<or> last_group_check (snd (collect_groups w now gs (n, c))) gid = Some now"
proof (induction gs arbitrary: n c)
  case Nil
  show ?case by simp
next
  case (Cons g gs)
  show ?case
  proof (cases "is_collecting c")
    case False
    then show ?thesis by (simp add: collect_groups_stopped)
  next
    case True
    show ?thesis
    proof (cases "checked_recently c (group_id g) now")
      case skip: True
      with Cons.IH [of n c] show ?thesis
        unfolding collect_groups_step [OF True] by simp
    next
      case False
      show ?thesis
      proof (cases "get_group_messages w (group_id g)")
        case Raises
        with False Cons.IH [of n c] show ?thesis
          unfolding collect_groups_step [OF True] by simp
      next
        case (Returns messages)
        let ?p = "process_group_messages w c messages (group_id g) (group_name g)"
        let ?c2 = "(snd ?p)\<lparr>last_group_check := (last_group_check (snd ?p))(group_id g := Some now)\<rparr>"
        have e: "collect_groups w now (g # gs) (n, c) = collect_groups w now gs (n + fst ?p, ?c2)"
          unfolding collect_groups_step [OF True] using False Returns by simp
        have "last_group_check ?c2 gid = last_group_check c gid \<or> last_group_check ?c2 gid = Some now"
          by (simp add: processed_fields)
        with Cons.IH [of "n + fst ?p" ?c2] show ?thesis
          unfolding e by auto
      qed
    qed
  qed
qed

lemma collect_groups_stamp_kept:
  "last_group_check c gid = Some now \<Longrightarrow>
   last_group_check (snd (collect_groups w now gs (n, c))) gid = Some now"
  using collect_groups_stamp [of w now gs n c gid] by auto

lemma collect_groups_raise_unchanged:
  assumes "get_group_messages w gid = Raises"
  shows "last_group_check (snd (collect_groups w now gs (n, c))) gid = last_group_check c gid"
proof (induction gs arbitrary: n c)
  case Nil
  show ?case by simp
next
  case (Cons g gs)
  show ?case
  proof (cases "is_collecting c")
    case False
    then show ?thesis by (simp add: collect_groups_stopped)
  next
    case True
    show ?thesis
    proof (cases "checked_recently c (group_id g) now")
      case skip: True
      with Cons.IH [of n c] show ?thesis
        unfolding collect_groups_step [OF True] by simp
    next
      case False
      show ?thesis
      proof (cases "get_group_messages w (group_id g)")
        case Raises
        with False Cons.IH [of n c] show ?thesis
          unfolding collect_groups_step [OF True] by simp
      next
        case (Returns messages)
        with assms have ne: "group_id g \<noteq> gid" by auto
        let ?p = "process_group_messages w c messages (group_id g) (group_name g)"
        let ?c2 = "(snd ?p)\<lparr>last_group_check := (last_group_check (snd ?p))(group_id g := Some now)\<rparr>"
        have e: "collect_groups w now (g # gs) (n, c) = collect_groups w now gs (n + fst ?p, ?c2)"
          unfolding collect_groups_step [OF True] using False Returns by simp
        have "last_group_check ?c2 gid = last_group_check c gid"
          using ne by (simp add: processed_fields)
        with Cons.IH [of "n + fst ?p" ?c2] show ?thesis
          unfolding e by simp
      qed
    qed
  qed
qed

lemma collect_groups_fetched_stamped:
  assumes "g \<in> set gs" and "is_collecting c"
    and "get_group_messages w (group_id g) \<noteq> Raises"
    and "\<not> checked_recently c (group_id g) now \<or> last_group_check c (group_id g) = Some now"
  shows "last_group_check (snd (collect_groups w now gs (n, c))) (group_id g) = Some now"
  using assms
proof (induction gs arbitrary: n c)
  case Nil
  then show ?case by simp
next
  case (Cons g' gs)
  note run = Cons.prems(2)
  show ?case
  proof (cases "checked_recently c (group_id g') now")
    case skip: True
    have e: "collect_groups w now (g' # gs) (n, c) = collect_groups w now gs (n, c)"
      unfolding collect_groups_step [OF run] using skip by simp
    show ?thesis
    proof (cases "g \<in> set gs")
      case True
      from Cons.IH [OF True run Cons.prems(3,4)] show ?thesis unfolding e .
    next
      case False
      with Cons.prems(1) have "g = g'" by simp
      with skip Cons.prems(4) have "last_group_check c (group_id g) = Some now" by simp
      then show ?thesis unfolding e by (rule collect_groups_stamp_kept)
    qed
  next
    case noskip: False
    show ?thesis
    proof (cases "get_group_messages w (group_id g')")
      case Raises
      have e: "collect_groups w now (g' # gs) (n, c) = collect_groups w now gs (n, c)"
        unfolding collect_groups_step [OF run] using noskip Raises by simp
      from Raises Cons.prems(3) have "g \<noteq> g'" by auto
      with Cons.prems(1) have "g \<in> set gs" by simp
      from Cons.IH [OF this run Cons.prems(3,4)] show ?thesis unfolding e .
    next
      case (Returns messages)
      let ?p = "process_group_messages w c messages (group_id g') (group_name g')"
      let ?c2 = "(snd ?p)\<lparr>last_group_check := (last_group_check (snd ?p))(group_id g' := Some now)\<rparr>"
      have e: "collect_groups w now (g' # gs) (n, c) = collect_groups w now gs (n + fst ?p, ?c2)"
        unfolding collect_groups_step [OF run] using noskip Returns by simp
      have run2: "is_collecting ?c2" using run by (simp add: processed_fields)
      show ?thesis
      proof (cases "group_id g' = group_id g")
        case True
        then have "last_group_check ?c2 (group_id g) = Some now" by simp
        then show ?thesis unfolding e by (rule collect_groups_stamp_kept)
      next
        case False
        then have "g \<noteq> g'" by auto
        with Cons.prems(1) have mem: "g \<in> set gs" by simp
        have same: "last_group_check ?c2 (group_id g) = last_group_check c (group_id g)"
          using False by (simp add: processed_fields)
        then have "checked_recently ?c2 (group_id g) now = checked_recently c (group_id g) now"
          by (simp add: checked_recently_def)
        with same Cons.prems(4)
        have "\<not> checked_recently ?c2 (group_id g) now \<or> last_group_check ?c2 (group_id g) = Some now"
          by simp
        from Cons.IH [OF mem run2 Cons.prems(3) this] show ?thesis unfolding e .
      qed
    qed
  qed
qed

lemma collect_from_all_groups_stamps:
  assumes "get_all_groups w = Returns gs" and "gs \<noteq> []"
  shows "last_group_check (collect_from_all_groups w c now)
           = last_group_check (snd (collect_groups w now gs (0, c)))"
  using assms by (simp add: collect_from_all_groups_def split: prod.splits)

lemma collect_from_all_groups_fields:
  "collections_today (collect_from_all_groups w c now) = collections_today c
   \<and> last_collection_date (collect_from_all_groups w c now) = last_collection_date c
   \<and> is_collecting (collect_from_all_groups w c now) = is_collecting c"
proof (cases "get_all_groups w")
  case Raises
  then show ?thesis by (simp add: collect_from_all_groups_def)
next
  case (Returns gs)
  show ?thesis
    using Returns collect_groups_fields [of w now gs 0 c]
    by (auto simp add: collect_from_all_groups_def split: prod.splits)
qed


subsection \<open>The daily cap\<close>

lemma reset_same_day:
  "last_collection_date c = Some (date_of now) \<Longrightarrow> reset_daily_counter_if_needed c now = c"
  by (simp add: reset_daily_counter_if_needed_def date_of_def)

lemma reset_new_day:
  "last_collection_date c \<noteq> Some (date_of now) \<Longrightarrow>
   reset_daily_counter_if_needed c now
     = c\<lparr>collections_today := 0, last_collection_date := Some (date_of now)\<rparr>"
  by (simp add: reset_daily_counter_if_needed_def date_of_def)

lemma loop_body_cool_down:
  assumes "50 \<le> collections_today c" and "last_collection_date c = Some (date_of now)"
  shows "collection_loop_body w interval c now = (CoolDown 3600, c)"
  using assms by (simp add: collection_loop_body_def reset_same_day)

lemma loop_cool_down:
  assumes "is_collecting c" and "50 \<le> collections_today c" and "last_collection_date c = Some d"
    and "\<forall>now\<in>set nows. date_of now = d"
  shows "collection_loop w interval c nows = (replicate (length nows) (CoolDown 3600), c)"
  using assms(4)
proof (induction nows)
  case Nil
  show ?case by simp
next
  case (Cons now nows)
  then have "last_collection_date c = Some (date_of now)" using assms(3) by simp
  from loop_body_cool_down [OF assms(2) this] Cons assms(1) show ?case by simp
qed

lemma loop_body_new_day:
  assumes "last_collection_date c \<noteq> Some (date_of now)"
  shows "\<exists>c'. collection_loop_body w interval c now = (Pass interval, c')
           \<and> collections_today c' = 1 \<and> last_collection_date c' = Some (date_of now)"
proof -
  let ?c1 = "c\<lparr>collections_today := 0, last_collection_date := Some (date_of now)\<rparr>"
  have "collection_loop_body w interval c now =
          (Pass interval, (collect_from_all_groups w ?c1 now)
             \<lparr>collections_today := collections_today (collect_from_all_groups w ?c1 now) + 1\<rparr>)"
    by (simp add: collection_loop_body_def reset_new_day [OF assms] Let_def)
  then show ?thesis
    using collect_from_all_groups_fields [of w ?c1 now] by simp
qed

text \<open>The loop over same-day readings at the cap, followed by a reading on another day.\<close>

lemma loop_cool_down_then:
  assumes "is_collecting c" and "50 \<le> collections_today c" and "last_collection_date c = Some d"
    and "\<forall>now\<in>set nows. date_of now = d"
  shows "collection_loop w interval c (nows @ rest)
           = (replicate (length nows) (CoolDown 3600) @ fst (collection_loop w interval c rest),
              snd (collection_loop w interval c rest))"
  using assms(4)
proof (induction nows)
  case Nil
  show ?case by simp
next
  case (Cons now nows)
  then have "last_collection_date c = Some (date_of now)" using assms(3) by simp
  from loop_body_cool_down [OF assms(2) this] Cons assms(1) show ?case by simp
qed

lemma loop_body_new_day_pass:
  assumes "last_collection_date c \<noteq> Some (date_of now)"
  shows "collection_loop_body w interval c now =
           (Pass interval,
            (collect_from_all_groups w
               (c\<lparr>collections_today := 0, last_collection_date := Some (date_of now)\<rparr>) now)
              \<lparr>collections_today := 1\<rparr>)"
proof -
  let ?c1 = "c\<lparr>collections_today := 0, last_collection_date := Some (date_of now)\<rparr>"
  have "collections_today (collect_from_all_groups w ?c1 now) = 0"
    using collect_from_all_groups_fields [of w ?c1 now] by simp
  then show ?thesis
    by (simp add: collection_loop_body_def reset_new_day [OF assms] Let_def)
qed

lemma loop_leaves_cool_down:
  assumes run: "is_collecting c" and cap: "50 \<le> collections_today c"
    and d: "last_collection_date c = Some d"
    and same: "\<forall>now\<in>set nows. date_of now = d" and new: "date_of now' \<noteq> d"
  shows "\<exists>c1. c1 = (collect_from_all_groups w
                     (c\<lparr>collections_today := 0, last_collection_date := Some (date_of now')\<rparr>) now')
                    \<lparr>collections_today := 1\<rparr>
           \<and> collections_today c1 = 1 \<and> last_collection_date c1 = Some (date_of now')
           \<and> collection_loop w interval c (nows @ now' # rest)
               = (replicate (length nows) (CoolDown 3600) @ Pass interval
                    # fst (collection_loop w interval c1 rest),
                  snd (collection_loop w interval c1 rest))"
proof -
  let ?c0 = "c\<lparr>collections_today := 0, last_collection_date := Some (date_of now')\<rparr>"
  let ?c1 = "(collect_from_all_groups w ?c0 now')\<lparr>collections_today := 1\<rparr>"
  from d new have n: "last_collection_date c \<noteq> Some (date_of now')" by auto
  note b = loop_body_new_day_pass [OF n, of w interval]
  have l: "last_collection_date ?c1 = Some (date_of now')"
    using collect_from_all_groups_fields [of w ?c0 now'] by simp
  have "collection_loop w interval c (now' # rest)
          = (Pass interval # fst (collection_loop w interval ?c1 rest),
             snd (collection_loop w interval ?c1 rest))"
    using run b by (simp split: prod.splits)
  then have "collection_loop w interval c (nows @ now' # rest)
               = (replicate (length nows) (CoolDown 3600) @ Pass interval
                    # fst (collection_loop w interval ?c1 rest),
                  snd (collection_loop w interval ?c1 rest))"
    unfolding loop_cool_down_then [OF run cap d same] by simp
  with l show ?thesis by simp
qed

text \<open>
  Claim C8: while the loop runs with the counter at the cap (50 or more) and the stored
  date equal to the date of every clock reading, each iteration takes the cool-down
  branch (a sleep of 3600 seconds) and leaves the whole state, the counter included,
  unchanged. When those readings are followed by a reading \<open>now'\<close> on another date, the
  loop leaves the cool-down at that iteration: the counter is reset to zero, the stored
  date becomes the date of \<open>now'\<close>, a collection pass is performed from that state and
  the counter is 1 afterwards; the loop goes on from there with the remaining readings.
  The same reset and pass happen in any iteration whose date differs from the stored one.
\<close>

theorem daily_cap_cool_down:
  "(is_collecting c \<and> 50 \<le> collections_today c \<and> last_collection_date c = Some d
      \<and> (\<forall>now\<in>set nows. date_of now = d) \<longrightarrow>
      collection_loop w interval c nows = (replicate (length nows) (CoolDown 3600), c)
      \<and> (date_of now' \<noteq> d \<longrightarrow>
           (\<exists>c1. c1 = (collect_from_all_groups w
                         (c\<lparr>collections_today := 0, last_collection_date := Some (date_of now')\<rparr>) now')
                        \<lparr>collections_today := 1\<rparr>
               \<and> collections_today c1 = 1 \<and> last_collection_date c1 = Some (date_of now')
               \<and> collection_loop w interval c (nows @ now' # rest)
                   = (replicate (length nows) (CoolDown 3600) @ Pass interval
                        # fst (collection_loop w interval c1 rest),
                      snd (collection_loop w interval c1 rest)))))
   \<and> (last_collection_date c \<noteq> Some (date_of now) \<longrightarrow>
        collections_today (reset_daily_counter_if_needed c now) = 0
        \<and> (\<exists>c'. collection_loop_body w interval c now = (Pass interval, c')
              \<and> collections_today c' = 1 \<and> last_collection_date c' = Some (date_of now)))"
proof (intro conjI impI)
  assume h: "is_collecting c \<and> 50 \<le> collections_today c \<and> last_collection_date c = Some d
      \<and> (\<forall>now\<in>set nows. date_of now = d)"
  then show "collection_loop w interval c nows = (replicate (length nows) (CoolDown 3600), c)"
    using loop_cool_down by blast
  assume new: "date_of now' \<noteq> d"
  from h have a: "is_collecting c" "50 \<le> collections_today c" "last_collection_date c = Some d"
    "\<forall>now\<in>set nows. date_of now = d" by simp_all
  from loop_leaves_cool_down [OF a new, of w interval rest] show "\<exists>c1. c1 = (collect_from_all_groups w
                         (c\<lparr>collections_today := 0, last_collection_date := Some (date_of now')\<rparr>) now')
                        \<lparr>collections_today := 1\<rparr>
               \<and> collections_today c1 = 1 \<and> last_collection_date c1 = Some (date_of now')
               \<and> collection_loop w interval c (nows @ now' # rest)
                   = (replicate (length nows) (CoolDown 3600) @ Pass interval
                        # fst (collection_loop w interval c1 rest),
                      snd (collection_loop w interval c1 rest))" .
next
  assume n: "last_collection_date c \<noteq> Some (date_of now)"
  then show "collections_today (reset_daily_counter_if_needed c now) = 0"
    by (simp add: reset_new_day)
  from n show "\<exists>c'. collection_loop_body w interval c now = (Pass interval, c')
              \<and> collections_today c' = 1 \<and> last_collection_date c' = Some (date_of now)"
    by (rule loop_body_new_day)
qed

theorem daily_cap_cool_down_witness:
  "is_collecting capped_collector \<and> 50 \<le> collections_today capped_collector
   \<and> last_collection_date capped_collector = Some (2024, 1, 1)
   \<and> date_of (instant 2024 1 1 10 0 0) = (2024, 1, 1)
   \<and> date_of (instant 2024 1 1 11 0 0) = (2024, 1, 1)
   \<and> date_of (instant 2024 1 2 0 0 1) = (2024, 1, 2)
   \<and> collection_loop (example_world [] always_raises) 300 capped_collector
        [instant 2024 1 1 10 0 0, instant 2024 1 1 11 0 0]
       = ([CoolDown 3600, CoolDown 3600], capped_collector)
   \<and> fst (collection_loop (example_world [] always_raises) 300 capped_collector
        [instant 2024 1 1 10 0 0, instant 2024 1 1 11 0 0, instant 2024 1 2 0 0 1])
       = [CoolDown 3600, CoolDown 3600, Pass 300]
   \<and> collections_today (snd (collection_loop (example_world [] always_raises) 300 capped_collector
        [instant 2024 1 1 10 0 0, instant 2024 1 1 11 0 0, instant 2024 1 2 0 0 1])) = 1
   \<and> last_collection_date (snd (collection_loop (example_world [] always_raises) 300 capped_collector
        [instant 2024 1 1 10 0 0, instant 2024 1 1 11 0 0, instant 2024 1 2 0 0 1])) = Some (2024, 1, 2)
   \<and> last_collection_date capped_collector \<noteq> Some (date_of (instant 2024 1 2 0 0 1))
   \<and> (\<exists>c'. collection_loop_body (example_world [] always_raises) 300 capped_collector
              (instant 2024 1 2 0 0 1) = (Pass 300, c')
          \<and> collections_today c' = 1 \<and> last_collection_date c' = Some (2024, 1, 2))"
proof -
  let ?w = "example_world [] always_raises"
  let ?t1 = "instant 2024 1 1 10 0 0"
  let ?t2 = "instant 2024 1 1 11 0 0"
  let ?t3 = "instant 2024 1 2 0 0 1"
  have h: "is_collecting capped_collector \<and> 50 \<le> collections_today capped_collector
      \<and> last_collection_date capped_collector = Some (2024, 1, 1)
      \<and> (\<forall>now\<in>set [?t1, ?t2]. date_of now = (2024, 1, 1))"
    by (simp add: capped_collector_def running_collector_def init_collector_def date_of_def instant_def)
  have n: "last_collection_date capped_collector \<noteq> Some (date_of ?t3)"
    by (simp add: capped_collector_def running_collector_def init_collector_def date_of_def instant_def)
  have d: "date_of ?t3 = (2024, 1, 2)"
    by (simp add: date_of_def instant_def)
  have d12: "date_of ?t1 = (2024, 1, 1)" "date_of ?t2 = (2024, 1, 1)"
    by (simp_all add: date_of_def instant_def)
  have ne: "date_of ?t3 \<noteq> (2024, 1, 1)" unfolding d by simp
  note t = daily_cap_cool_down [of capped_collector "(2024, 1, 1)" "[?t1, ?t2]" ?w 300 ?t3 "[]" ?t3]
  note same_day = mp [OF conjunct1 [OF t] h]
  from conjunct1 [OF same_day] have 1: "collection_loop ?w 300 capped_collector [?t1, ?t2]
       = ([CoolDown 3600, CoolDown 3600], capped_collector)"
    by (simp add: numeral_2_eq_2)
  from mp [OF conjunct2 [OF same_day] ne]
  obtain c1 where c1: "collections_today c1 = 1" "last_collection_date c1 = Some (date_of ?t3)"
    "collection_loop ?w 300 capped_collector ([?t1, ?t2] @ ?t3 # [])
       = (replicate (length [?t1, ?t2]) (CoolDown 3600) @ Pass 300 # fst (collection_loop ?w 300 c1 []),
          snd (collection_loop ?w 300 c1 []))"
    by (elim exE conjE)
  have l: "collection_loop ?w 300 capped_collector [?t1, ?t2, ?t3]
       = ([CoolDown 3600, CoolDown 3600, Pass 300], c1)"
    using c1(3) by (simp add: numeral_2_eq_2)
  have 2: "fst (collection_loop ?w 300 capped_collector [?t1, ?t2, ?t3])
       = [CoolDown 3600, CoolDown 3600, Pass 300]"
    unfolding l by simp
  have 3: "collections_today (snd (collection_loop ?w 300 capped_collector [?t1, ?t2, ?t3])) = 1"
    unfolding l using c1(1) by simp
  have 4: "last_collection_date (snd (collection_loop ?w 300 capped_collector [?t1, ?t2, ?t3]))
              = Some (2024, 1, 2)"
    unfolding l using c1(2) d by simp
  from conjunct2 [OF mp [OF conjunct2 [OF t] n]]
  have 5: "\<exists>c'. collection_loop_body ?w 300 capped_collector ?t3 = (Pass 300, c')
          \<and> collections_today c' = 1 \<and> last_collection_date c' = Some (2024, 1, 2)"
    unfolding d .
  from h have h1: "is_collecting capped_collector" and h2: "50 \<le> collections_today capped_collector"
    and h3: "last_collection_date capped_collector = Some (2024, 1, 1)" by simp_all
  show ?thesis
    by (intro conjI) (fact h1 h2 h3 d12 d 1 2 3 4 n 5)+
qed

subsection \<open>The time of the last check of a group\<close>

text \<open>
  Claim C9, as amended. In a collection pass over the groups \<open>gs\<close>, take a group that is
  not skipped for having been checked within the hour. When fetching its messages
  raises, the error is caught, its last-checked timestamp keeps its previous value, and
  the loop goes on with the remaining groups from the same state. When the fetch
  returns, its last-checked timestamp is \<open>now\<close> after the pass.
\<close>

theorem pass_last_checked:
  assumes "get_all_groups w = Returns gs" and "g \<in> set gs" and "is_collecting c"
    and "\<not> checked_recently c (group_id g) now"
  shows "(get_group_messages w (group_id g) = Raises \<longrightarrow>
            last_group_check (collect_from_all_groups w c now) (group_id g)
              = last_group_check c (group_id g)
            \<and> (\<forall>rest n. collect_groups w now (g # rest) (n, c) = collect_groups w now rest (n, c)))
       \<and> (get_group_messages w (group_id g) \<noteq> Raises \<longrightarrow>
            last_group_check (collect_from_all_groups w c now) (group_id g) = Some now)"
proof -
  from assms(2) have ne: "gs \<noteq> []" by auto
  note st = collect_from_all_groups_stamps [OF assms(1) ne, of c now]
  show ?thesis
  proof (intro conjI impI allI)
    assume r: "get_group_messages w (group_id g) = Raises"
    show "last_group_check (collect_from_all_groups w c now) (group_id g) = last_group_check c (group_id g)"
      unfolding st by (rule collect_groups_raise_unchanged [OF r])
    show "collect_groups w now (g # rest) (n, c) = collect_groups w now rest (n, c)" for rest n
      unfolding collect_groups_step [OF assms(3)] using r by simp
  next
    assume "get_group_messages w (group_id g) \<noteq> Raises"
    from collect_groups_fetched_stamped [OF assms(2,3) this] assms(4)
    show "last_group_check (collect_from_all_groups w c now) (group_id g) = Some now"
      unfolding st by simp
  qed
qed


theorem pass_last_checked_witness:
  "get_all_groups (example_world two_groups fetch_second_only) = Returns two_groups
   \<and> group_one \<in> set two_groups \<and> group_two \<in> set two_groups
   \<and> is_collecting (running_collector None)
   \<and> \<not> checked_recently (running_collector None) (group_id group_one) (instant 2024 1 1 10 0 0)
   \<and> \<not> checked_recently (running_collector None) (group_id group_two) (instant 2024 1 1 10 0 0)
   \<and> get_group_messages (example_world two_groups fetch_second_only) (group_id group_one) = Raises
   \<and> get_group_messages (example_world two_groups fetch_second_only) (group_id group_two) \<noteq> Raises
   \<and> last_group_check (collect_from_all_groups (example_world two_groups fetch_second_only)
         (running_collector None) (instant 2024 1 1 10 0 0)) ''g1'' = None
   \<and> last_group_check (collect_from_all_groups (example_world two_groups fetch_second_only)
         (running_collector None) (instant 2024 1 1 10 0 0)) ''g2'' = Some (instant 2024 1 1 10 0 0)"
proof -
  let ?w = "example_world two_groups fetch_second_only"
  let ?c = "running_collector None"
  let ?now = "instant 2024 1 1 10 0 0"
  have a: "get_all_groups ?w = Returns two_groups" by (simp add: example_world_def)
  have m: "group_one \<in> set two_groups" "group_two \<in> set two_groups" by (simp_all add: two_groups_def)
  have r: "is_collecting ?c" by (simp add: running_collector_def init_collector_def)
  have n: "\<not> checked_recently ?c (group_id group_one) ?now" "\<not> checked_recently ?c (group_id group_two) ?now"
    by (simp_all add: checked_recently_def running_collector_def init_collector_def)
  have f1: "get_group_messages ?w (group_id group_one) = Raises"
    by (simp add: example_world_def fetch_second_only_def group_one_def)
  have f2: "get_group_messages ?w (group_id group_two) \<noteq> Raises"
    by (simp add: example_world_def fetch_second_only_def group_two_def)
  have i: "group_id group_one = ''g1''" "group_id group_two = ''g2''"
    by (simp_all add: group_one_def group_two_def)
  have z: "last_group_check ?c ''g1'' = None"
    by (simp add: running_collector_def init_collector_def)
  from pass_last_checked [OF a m(1) r n(1)] f1 i z
  have "last_group_check (collect_from_all_groups ?w ?c ?now) ''g1'' = None" by simp
  moreover from pass_last_checked [OF a m(2) r n(2)] f2 i
  have "last_group_check (collect_from_all_groups ?w ?c ?now) ''g2'' = Some ?now" by simp
  ultimately show ?thesis using a m r n f1 f2 by blast
qed

text \<open>
  Claim C9 as stated fails on the error path: in a pass over the single group
  \<^verbatim>\<open>g1\<close> whose fetch raises, the pass completes (it records its end) and the
  group's last-checked timestamp is still absent.
\<close>

theorem failed_target_counterexample:
  "last_group_check (collect_from_all_groups (example_world [group_one] always_raises)
       (running_collector None) (instant 2024 1 1 10 0 0)) ''g1'' = None
   \<and> last_collection (collect_from_all_groups (example_world [group_one] always_raises)
       (running_collector None) (instant 2024 1 1 10 0 0)) = Some ''2024-01-01T10:00:00''"
  by code_simp


subsection \<open>Deduplication within a pass\<close>







lemma ld_url_link_record [simp]: "ld_url (link_record c gid gname msg link category) = link"
  by (simp add: link_record_def)





















end
